theory Spec2Isabelle
  imports
    Main
    "HOL-Library.Word"
    "HOL-Library.Char_ord"
    "HOL-Library.List_Lexorder"
    "HOL-Library.Sublist"
    "HOL-Library.Multiset"
begin

unbundle bit_operations_syntax

section \<open>Data model (node.go)\<close>

text \<open>
  A \<^verbatim>\<open>*Node\<close> is an address into a store of nodes, or nil (\<open>None\<close>). The store is a
  total function from addresses to nodes, as Go's memory safety makes every non-nil
  pointer point to some node; \<open>nxt\<close> is the next address \<^verbatim>\<open>NewNode\<close> hands out.
  \<^verbatim>\<open>Value interface{}\<close> is a payload or nil (\<open>None\<close>); the payload kinds modelled are the
  ones the settings engine prints: strings, ints and bools.
\<close>

type_synonym addr = nat
type_synonym ptr = "addr option"

datatype val = VString string | VInt int | VBool bool

type_synonym NodeFlag = "8 word"

definition NoFlags :: NodeFlag where "NoFlags = 0"
definition ForceMap :: NodeFlag where "ForceMap = 1"
definition ForceArray :: NodeFlag where "ForceArray = 2"
definition IsRoot :: NodeFlag where "IsRoot = 4"

record Node =
  Key :: string
  Value :: "val option"
  Children :: "string \<rightharpoonup> addr"
  ChildKeys :: "string list"
  Parent :: ptr
  Flags :: NodeFlag

type_synonym heap = "addr \<Rightarrow> Node"

record store =
  heap :: heap
  nxt :: addr

datatype error = NilDeref | IndexOutOfRange

text \<open>\<^verbatim>\<open>NewNode(key)\<close>: a fresh node with no value, no children, no parent, no flags.\<close>

definition emptyNode :: "string \<Rightarrow> Node" where
  "emptyNode key = \<lparr>Key = key, Value = None, Children = Map.empty, ChildKeys = [],
                     Parent = None, Flags = NoFlags\<rparr>"

definition NewNode :: "store \<Rightarrow> string \<Rightarrow> store \<times> addr" where
  "NewNode s key = (s\<lparr>heap := (heap s)(nxt s := emptyNode key), nxt := Suc (nxt s)\<rparr>, nxt s)"

definition NewRoot :: "store \<Rightarrow> store \<times> addr" where
  "NewRoot s = (case NewNode s [] of (s1, root) \<Rightarrow>
     (s1\<lparr>heap := (heap s1)(root := (heap s1 root)\<lparr>Flags := IsRoot\<rparr>)\<rparr>, root))"

text \<open>The store before any allocation.\<close>

definition store0 :: store where
  "store0 = \<lparr>heap = (\<lambda>_. emptyNode []), nxt = 0\<rparr>"

subsection \<open>GetRoot, Depth, Path\<close>

text \<open>
  The three loops climb \<^verbatim>\<open>Parent\<close> links and do not return on a cyclic chain, so they
  are partial functions: \<open>None\<close> is "does not return".
\<close>

partial_function (option) GetRoot :: "heap \<Rightarrow> ptr \<Rightarrow> ptr option" where
  "GetRoot h p =
     (case p of None \<Rightarrow> Some None
      | Some a \<Rightarrow>
          if Parent (h a) \<noteq> None \<and> Flags (h a) AND IsRoot = 0
          then GetRoot h (Parent (h a)) else Some p)"

declare GetRoot.simps [code]

partial_function (option) DepthLoop :: "heap \<Rightarrow> ptr \<Rightarrow> int \<Rightarrow> int option" where
  "DepthLoop h n depth =
     (case n of None \<Rightarrow> Some depth
      | Some a \<Rightarrow>
          if Parent (h a) \<noteq> None \<and> Flags (h a) AND IsRoot = 0
          then DepthLoop h (Parent (h a)) (depth + 1) else Some depth)"

declare DepthLoop.simps [code]

definition Depth :: "heap \<Rightarrow> ptr \<Rightarrow> int option" where
  "Depth h node = DepthLoop h node 0"

text \<open>
  \<^verbatim>\<open>Path\<close>: the loop climbs every \<^verbatim>\<open>Parent\<close> link up to nil (it does not stop at an
  \<^verbatim>\<open>IsRoot\<close> node), decrementing \<open>depth\<close> and writing non-empty keys into
  \<^verbatim>\<open>path[depth]\<close>; a write outside the slice panics.
\<close>

partial_function (option) PathLoop ::
  "heap \<Rightarrow> ptr \<Rightarrow> int \<Rightarrow> string list \<Rightarrow> (error + string list) option" where
  "PathLoop h n depth path =
     (case n of None \<Rightarrow> Some (Inr path)
      | Some a \<Rightarrow>
          if Key (h a) \<noteq> []
          then (if 0 \<le> depth - 1 \<and> depth - 1 < int (length path)
                then PathLoop h (Parent (h a)) (depth - 1) (path[nat (depth - 1) := Key (h a)])
                else Some (Inl IndexOutOfRange))
          else PathLoop h (Parent (h a)) (depth - 1) path)"

declare PathLoop.simps [code]

definition Path :: "heap \<Rightarrow> ptr \<Rightarrow> (error + string list) option" where
  "Path h node =
     (case Depth h node of None \<Rightarrow> None
      | Some depth \<Rightarrow> PathLoop h node depth (replicate (nat depth) []))"

section \<open>Key specs and printing (ParseKeys, fmt.Sprint, strings.Split)\<close>

text \<open>
  \<^verbatim>\<open>fmt.Sprint\<close> and \<^verbatim>\<open>strings.Split\<close> belong to Go's standard library; they are
  modelled from its documentation for the payload kinds of \<open>val\<close>. An
  \<^verbatim>\<open>interface{}\<close> key is a \<open>val option\<close>, nil printing as \<^verbatim>\<open><nil>\<close>.
\<close>

definition digitChar :: "nat \<Rightarrow> char" where
  "digitChar d = ''0123456789'' ! d"

fun showNat :: "nat \<Rightarrow> string" where
  "showNat n = (if n < 10 then [digitChar n] else showNat (n div 10) @ [digitChar (n mod 10)])"

declare showNat.simps [simp del]

definition Sprint :: "val option \<Rightarrow> string" where
  "Sprint v =
     (case v of
        None \<Rightarrow> ''<nil>''
      | Some (VString s) \<Rightarrow> s
      | Some (VInt i) \<Rightarrow> (if i < 0 then CHR ''-'' # showNat (nat (- i)) else showNat (nat i))
      | Some (VBool b) \<Rightarrow> (if b then ''true'' else ''false''))"

text \<open>\<^verbatim>\<open>strings.Split(s, ".")\<close>: the pieces between dots; the empty string gives one empty piece.\<close>

fun splitDot :: "string \<Rightarrow> string list" where
  "splitDot [] = [[]]"
| "splitDot (c # cs) =
     (if c = CHR ''.'' then [] # splitDot cs
      else (case splitDot cs of [] \<Rightarrow> [[c]] | x # xs \<Rightarrow> (c # x) # xs))"

fun ParseKeys :: "val option list \<Rightarrow> string list" where
  "ParseKeys [] = []"
| "ParseKeys (key # keys) = splitDot (Sprint key) @ ParseKeys keys"

text \<open>\<^verbatim>\<open>internalStringValue\<close>: empty for a nil node or a nil value, the string itself, or its print.\<close>

definition internalStringValue :: "heap \<Rightarrow> ptr \<Rightarrow> string" where
  "internalStringValue h node =
     (case node of
        None \<Rightarrow> []
      | Some a \<Rightarrow> (case Value (h a) of None \<Rightarrow> [] | Some v \<Rightarrow> Sprint (Some v)))"

section \<open>Structural operations (internals.go, node.go)\<close>

text \<open>
  \<^verbatim>\<open>internalUnset\<close>, \<^verbatim>\<open>Unset\<close>, \<^verbatim>\<open>Adopt\<close> and \<^verbatim>\<open>Sort\<close> read the fields of their
  receiver, so a nil receiver panics; they are modelled on addresses.
  The loop of \<^verbatim>\<open>internalUnset\<close> that drops the key from \<^verbatim>\<open>ChildKeys\<close> stops at the
  first hit, which is \<open>remove1\<close>.
\<close>

fun internalUnset :: "store \<Rightarrow> addr \<Rightarrow> string list \<Rightarrow> store \<times> ptr" where
  "internalUnset s node [] = (s, None)"
| "internalUnset s node (key # keys) =
     (case Children (heap s node) key of
        None \<Rightarrow> (s, None)
      | Some child \<Rightarrow>
          if keys \<noteq> [] then internalUnset s child keys
          else
            (let h1 = (heap s)(node := (heap s node)
                        \<lparr>Children := (Children (heap s node))(key := None),
                         ChildKeys := remove1 key (ChildKeys (heap s node))\<rparr>);
                 h2 = h1(child := (h1 child)\<lparr>Parent := None\<rparr>)
             in (s\<lparr>heap := h2\<rparr>, Some child)))"

definition Unset :: "store \<Rightarrow> addr \<Rightarrow> val option list \<Rightarrow> store \<times> ptr" where
  "Unset s node keys = internalUnset s node (ParseKeys keys)"

definition Adopt :: "store \<Rightarrow> addr \<Rightarrow> addr \<Rightarrow> store" where
  "Adopt s node child =
     (let s1 = (case Parent (heap s child) of
                  None \<Rightarrow> s
                | Some p \<Rightarrow> fst (Unset s p [Some (VString (Key (heap s child)))]));
          s2 = (case Children (heap s1 node) (Key (heap s1 child)) of
                  None \<Rightarrow> s1
                | Some other \<Rightarrow> fst (Unset s1 node [Some (VString (Key (heap s1 other)))]));
          key = Key (heap s2 child);
          h3 = (heap s2)(node := (heap s2 node)
                  \<lparr>Children := (Children (heap s2 node))(key \<mapsto> child),
                   ChildKeys := ChildKeys (heap s2 node) @ [key]\<rparr>);
          h4 = h3(child := (h3 child)\<lparr>Parent := Some node\<rparr>)
      in s2\<lparr>heap := h4\<rparr>)"

text \<open>
  \<^verbatim>\<open>internalSet\<close>: the loop finds or creates one node per key; a nil \<^verbatim>\<open>node\<close> with a
  non-empty key list panics at the first map read.
\<close>

fun internalSetLoop :: "store \<Rightarrow> addr \<Rightarrow> string list \<Rightarrow> store \<times> addr" where
  "internalSetLoop s nodeToUpdate [] = (s, nodeToUpdate)"
| "internalSetLoop s nodeToUpdate (key # keys) =
     (case Children (heap s nodeToUpdate) key of
        Some child \<Rightarrow> internalSetLoop s child keys
      | None \<Rightarrow>
          (case NewNode s key of
             (s1, child) \<Rightarrow> internalSetLoop (Adopt s1 nodeToUpdate child) child keys))"

definition internalSet :: "store \<Rightarrow> ptr \<Rightarrow> string list \<Rightarrow> val option \<Rightarrow> error + store \<times> ptr" where
  "internalSet s node keys value =
     (if keys = [] then Inr (s, None)
      else (case node of
              None \<Rightarrow> Inl NilDeref
            | Some a \<Rightarrow>
                (case internalSetLoop s a keys of
                   (s1, nodeToUpdate) \<Rightarrow>
                     Inr (if value \<noteq> None
                          then s1\<lparr>heap := (heap s1)(nodeToUpdate :=
                                 (heap s1 nodeToUpdate)\<lparr>Value := value\<rparr>)\<rparr>
                          else s1,
                          Some nodeToUpdate))))"

definition Set :: "store \<Rightarrow> ptr \<Rightarrow> val option list \<Rightarrow> val option \<Rightarrow> error + store \<times> ptr" where
  "Set s node keys value = internalSet s node (ParseKeys keys) value"

definition SetKey :: "store \<Rightarrow> ptr \<Rightarrow> string \<Rightarrow> val option \<Rightarrow> error + store \<times> ptr" where
  "SetKey s node key value = internalSet s node (ParseKeys [Some (VString key)]) value"

definition AddNode :: "store \<Rightarrow> ptr \<Rightarrow> val option list \<Rightarrow> error + store \<times> ptr" where
  "AddNode s node keys = Set s node keys None"

definition Rename :: "store \<Rightarrow> ptr \<Rightarrow> string \<Rightarrow> store \<times> ptr" where
  "Rename s node newKey =
     (case node of
        None \<Rightarrow> (s, node)
      | Some a \<Rightarrow>
          (case Parent (heap s a) of
             None \<Rightarrow> (s, node)
           | Some parent \<Rightarrow>
               (let s1 = fst (Unset s parent [Some (VString (Key (heap s a)))]);
                    s2 = s1\<lparr>heap := (heap s1)(a := (heap s1 a)\<lparr>Key := newKey\<rparr>)\<rparr>
                in (Adopt s2 parent a, node))))"

section \<open>Path resolver (internals.go)\<close>

text \<open>
  \<^verbatim>\<open>readNodes\<close> is the recursive closure of \<^verbatim>\<open>internalGetNodes\<close>; the captured
  \<^verbatim>\<open>result\<close> slice is passed in and returned. \<open>readNodesEach\<close> is its loop over
  \<^verbatim>\<open>node.ChildKeys\<close> for the wildcard segment, \<open>readNodesStar\<close> the second half of the
  literal branch (the child keyed \<^verbatim>\<open>"*"\<close>). A \<^verbatim>\<open>return\<close> of the closure ends the
  current invocation only. A child key missing from the map reads as a nil pointer,
  which is appended as it is when the segment is the last one and dereferenced
  (a panic) otherwise.
\<close>

function (sequential)
  readNodes :: "heap \<Rightarrow> int \<Rightarrow> addr \<Rightarrow> string list \<Rightarrow> nat \<Rightarrow> ptr list \<Rightarrow> error + ptr list"
  and readNodesEach ::
    "heap \<Rightarrow> int \<Rightarrow> addr \<Rightarrow> string list \<Rightarrow> nat \<Rightarrow> string list \<Rightarrow> ptr list \<Rightarrow> error + ptr list"
  and readNodesStar ::
    "heap \<Rightarrow> int \<Rightarrow> addr \<Rightarrow> string list \<Rightarrow> nat \<Rightarrow> ptr list \<Rightarrow> error + ptr list"
where
  "readNodes h limit node spec index result =
     (if length spec \<le> index then Inl IndexOutOfRange
      else if spec ! index = ''*''
      then readNodesEach h limit node spec index (ChildKeys (h node)) result
      else (case Children (h node) (spec ! index) of
              None \<Rightarrow> readNodesStar h limit node spec index result
            | Some childNode \<Rightarrow>
                if index + 1 = length spec
                then (if limit > 0 \<and> int (length (result @ [Some childNode])) \<ge> limit
                      then Inr (result @ [Some childNode])
                      else readNodesStar h limit node spec index (result @ [Some childNode]))
                else (case readNodes h limit childNode spec (index + 1) result of
                        Inl e \<Rightarrow> Inl e
                      | Inr result1 \<Rightarrow> readNodesStar h limit node spec index result1)))"
| "readNodesEach h limit node spec index [] result = Inr result"
| "readNodesEach h limit node spec index (key # keys) result =
     (if index + 1 = length spec
      then (if limit > 0 \<and> int (length (result @ [Children (h node) key])) \<ge> limit
            then Inr (result @ [Children (h node) key])
            else readNodesEach h limit node spec index keys (result @ [Children (h node) key]))
      else if length spec \<le> index + 1 then Inl IndexOutOfRange
      else (case Children (h node) key of
              None \<Rightarrow> Inl NilDeref
            | Some childNode \<Rightarrow>
                (case readNodes h limit childNode spec (index + 1) result of
                   Inl e \<Rightarrow> Inl e
                 | Inr result1 \<Rightarrow> readNodesEach h limit node spec index keys result1)))"
| "readNodesStar h limit node spec index result =
     (case Children (h node) ''*'' of
        None \<Rightarrow> Inr result
      | Some childNode \<Rightarrow>
          if index + 1 = length spec then Inr (result @ [Some childNode])
          else if length spec \<le> index + 1 then Inl IndexOutOfRange
          else readNodes h limit childNode spec (index + 1) result)"
  by pat_completeness auto
termination
  by (relation "inv_image (less_than <*lex*> less_than <*lex*> less_than)
        (\<lambda>x. case x of
           Inl (h, limit, node, spec, index, result) \<Rightarrow> (length spec - index, 1::nat, 0::nat)
         | Inr (Inl (h, limit, node, spec, index, keys, result)) \<Rightarrow>
             (length spec - index, 0, length keys)
         | Inr (Inr (h, limit, node, spec, index, result)) \<Rightarrow> (length spec - index, 0, 0))")
     auto

declare readNodes.simps [simp del]
declare readNodesStar.simps [simp del]

text \<open>
  The \<^verbatim>\<open>for\<close> loop of \<^verbatim>\<open>internalGetNodes\<close>: one pass of \<^verbatim>\<open>readNodes\<close> per scope. It
  does not return on a cyclic chain of scopes, so it is a partial function.
\<close>

partial_function (option) internalGetNodesLoop ::
  "heap \<Rightarrow> int \<Rightarrow> addr \<Rightarrow> string list \<Rightarrow> ptr list \<Rightarrow> (error + ptr list) option" where
  "internalGetNodesLoop h limit node parsedKeys result =
     (case readNodes h limit node parsedKeys 0 result of
        Inl e \<Rightarrow> Some (Inl e)
      | Inr result1 \<Rightarrow>
          if limit > 0 \<and> int (length result1) \<ge> limit then Some (Inr result1)
          else (case GetRoot h (Some node) of
                  None \<Rightarrow> None
                | Some None \<Rightarrow> Some (Inl NilDeref)
                | Some (Some root) \<Rightarrow>
                    (case Parent (h root) of
                       None \<Rightarrow> Some (Inr result1)
                     | Some parentScope \<Rightarrow>
                         if Flags (h node) AND IsRoot = 0
                         then (case Path h (Some node) of
                                 None \<Rightarrow> None
                               | Some (Inl e) \<Rightarrow> Some (Inl e)
                               | Some (Inr nodePath) \<Rightarrow>
                                   internalGetNodesLoop h limit parentScope
                                     (nodePath @ parsedKeys) result1)
                         else internalGetNodesLoop h limit parentScope parsedKeys result1)))"

declare internalGetNodesLoop.simps [code]

definition internalGetNodes ::
  "heap \<Rightarrow> ptr \<Rightarrow> string list \<Rightarrow> int \<Rightarrow> (error + ptr list) option" where
  "internalGetNodes h node parsedKeys limit =
     (case node of
        None \<Rightarrow> Some (Inr [])
      | Some a \<Rightarrow>
          if parsedKeys = [] then Some (Inr [node])
          else internalGetNodesLoop h limit a parsedKeys [])"

section \<open>Getters (getters.go)\<close>

text \<open>
  The Go \<^verbatim>\<open>error\<close> values the getters return are ordinary results, not panics:
  \<open>Inl errorNodeNotFound\<close> is the pair \<^verbatim>\<open>(nil, errorNodeNotFound)\<close>.
\<close>

datatype goerr = errorNodeNotFound | ErrParse

definition GetNodes :: "heap \<Rightarrow> ptr \<Rightarrow> val option list \<Rightarrow> (error + ptr list) option" where
  "GetNodes h node keys = internalGetNodes h node (ParseKeys keys) 0"

definition internalTryGetNode ::
  "heap \<Rightarrow> ptr \<Rightarrow> string list \<Rightarrow> (error + (goerr + ptr)) option" where
  "internalTryGetNode h node parsedKeys =
     (case internalGetNodes h node parsedKeys 1 of
        None \<Rightarrow> None
      | Some (Inl e) \<Rightarrow> Some (Inl e)
      | Some (Inr found) \<Rightarrow>
          Some (Inr (case found of [] \<Rightarrow> Inl errorNodeNotFound | first # _ \<Rightarrow> Inr first)))"

definition TryGetNode ::
  "heap \<Rightarrow> ptr \<Rightarrow> val option list \<Rightarrow> (error + (goerr + ptr)) option" where
  "TryGetNode h node keys = internalTryGetNode h node (ParseKeys keys)"

text \<open>\<^verbatim>\<open>GetNode\<close> is \<^verbatim>\<open>GetNodeDefault(nil, keys...)\<close>: the node found, or nil.\<close>

definition GetNodeDefault ::
  "heap \<Rightarrow> ptr \<Rightarrow> ptr \<Rightarrow> val option list \<Rightarrow> (error + ptr) option" where
  "GetNodeDefault h node def keys =
     (case TryGetNode h node keys of
        None \<Rightarrow> None
      | Some (Inl e) \<Rightarrow> Some (Inl e)
      | Some (Inr (Inl err)) \<Rightarrow> Some (Inr def)
      | Some (Inr (Inr val)) \<Rightarrow> Some (Inr val))"

definition GetNode :: "heap \<Rightarrow> ptr \<Rightarrow> val option list \<Rightarrow> (error + ptr) option" where
  "GetNode h node keys = GetNodeDefault h node None keys"

text \<open>\<^verbatim>\<open>TryGet\<close> reads \<^verbatim>\<open>childNode.Value\<close>, a panic when the node found is nil.\<close>

definition TryGet ::
  "heap \<Rightarrow> ptr \<Rightarrow> val option list \<Rightarrow> (error + (goerr + val option)) option" where
  "TryGet h node keys =
     (case TryGetNode h node keys of
        None \<Rightarrow> None
      | Some (Inl e) \<Rightarrow> Some (Inl e)
      | Some (Inr (Inl err)) \<Rightarrow> Some (Inr (Inl err))
      | Some (Inr (Inr None)) \<Rightarrow> Some (Inl NilDeref)
      | Some (Inr (Inr (Some childNode))) \<Rightarrow> Some (Inr (Inr (Value (h childNode)))))"

definition Get :: "heap \<Rightarrow> ptr \<Rightarrow> val option list \<Rightarrow> (error + val option) option" where
  "Get h node keys =
     (case TryGet h node keys of
        None \<Rightarrow> None
      | Some (Inl e) \<Rightarrow> Some (Inl e)
      | Some (Inr (Inl err)) \<Rightarrow> Some (Inr None)
      | Some (Inr (Inr val)) \<Rightarrow> Some (Inr val))"

text \<open>
  \<^verbatim>\<open>parseBool\<close> lower-cases the print of the value and compares it with eight ASCII
  words. \<^verbatim>\<open>strings.ToLower\<close> is modelled on the ASCII letters, which decides the same
  comparisons: no other character lower-cases to a letter of these words.
\<close>

definition toLowerChar :: "char \<Rightarrow> char" where
  "toLowerChar c =
     (if of_char CHR ''A'' \<le> (of_char c :: nat) \<and> (of_char c :: nat) \<le> of_char CHR ''Z''
      then char_of ((of_char c :: nat) + 32) else c)"

definition parseBool :: "val option \<Rightarrow> goerr + bool" where
  "parseBool v =
     (let s = map toLowerChar (Sprint v) in
      if s = ''1'' then Inr True
      else if s = ''t'' then Inr True
      else if s = ''true'' then Inr True
      else if s = ''on'' then Inr True
      else if s = ''0'' then Inr False
      else if s = ''f'' then Inr False
      else if s = ''false'' then Inr False
      else if s = ''off'' then Inr False
      else Inl ErrParse)"

definition TryGetBool ::
  "heap \<Rightarrow> ptr \<Rightarrow> val option list \<Rightarrow> (error + (goerr + bool)) option" where
  "TryGetBool h node keys =
     (case TryGet h node keys of
        None \<Rightarrow> None
      | Some (Inl e) \<Rightarrow> Some (Inl e)
      | Some (Inr (Inl err)) \<Rightarrow> Some (Inr (Inl err))
      | Some (Inr (Inr (Some (VBool castd)))) \<Rightarrow> Some (Inr (Inr castd))
      | Some (Inr (Inr v)) \<Rightarrow> Some (Inr (parseBool v)))"

definition GetBool :: "heap \<Rightarrow> ptr \<Rightarrow> val option list \<Rightarrow> (error + bool) option" where
  "GetBool h node keys =
     (case TryGetBool h node keys of
        None \<Rightarrow> None
      | Some (Inl e) \<Rightarrow> Some (Inl e)
      | Some (Inr (Inl err)) \<Rightarrow> Some (Inr False)
      | Some (Inr (Inr val)) \<Rightarrow> Some (Inr val))"

definition GetStringValues :: "heap \<Rightarrow> ptr \<Rightarrow> val option list \<Rightarrow> (error + string list) option" where
  "GetStringValues h node keys =
     (case GetNodes h node keys of
        None \<Rightarrow> None
      | Some (Inl e) \<Rightarrow> Some (Inl e)
      | Some (Inr found) \<Rightarrow> Some (Inr (map (internalStringValue h) found)))"

section \<open>Sorting (node.go, NumericStringSlice)\<close>

text \<open>
  \<^verbatim>\<open>strconv.Atoi\<close> and \<^verbatim>\<open>sort.Sort\<close> belong to Go's standard library. \<open>Atoi\<close> returns
  the value and whether the error is nil: an optional sign and at least one decimal
  digit, a syntax error giving 0 and a value outside 64 bits the nearest bound with
  a range error.
\<close>

definition isDigit :: "char \<Rightarrow> bool" where
  "isDigit c \<longleftrightarrow> of_char CHR ''0'' \<le> (of_char c :: nat) \<and> (of_char c :: nat) \<le> of_char CHR ''9''"

fun digitsValue :: "int \<Rightarrow> string \<Rightarrow> int" where
  "digitsValue n [] = n"
| "digitsValue n (ch # s) = digitsValue (n * 10 + int (of_char ch - of_char CHR ''0'')) s"

definition Atoi :: "string \<Rightarrow> int \<times> bool" where
  "Atoi s0 =
     (let neg = (s0 \<noteq> [] \<and> hd s0 = CHR ''-'');
          s = (if s0 \<noteq> [] \<and> (hd s0 = CHR ''-'' \<or> hd s0 = CHR ''+'') then tl s0 else s0)
      in if s = [] \<or> \<not> list_all isDigit s then (0, False)
         else (let n = (if neg then - digitsValue 0 s else digitsValue 0 s)
               in if n > 2 ^ 63 - 1 then (2 ^ 63 - 1, False)
                  else if n < - (2 ^ 63) then (- (2 ^ 63), False)
                  else (n, True)))"

text \<open>\<^verbatim>\<open>NumericStringSlice.Less\<close> drops the errors of \<^verbatim>\<open>Atoi\<close>; \<^verbatim>\<open>sort.StringSlice\<close>
  compares strings byte by byte.\<close>

definition NumericLess :: "string \<Rightarrow> string \<Rightarrow> bool" where
  "NumericLess a b \<longleftrightarrow> fst (Atoi a) < fst (Atoi b)"

definition StringLess :: "string \<Rightarrow> string \<Rightarrow> bool" where
  "StringLess a b \<longleftrightarrow> a < b"

text \<open>
  \<^verbatim>\<open>sort.Sort\<close> is documented to sort the data in ascending order as determined by
  \<^verbatim>\<open>Less\<close>, and not to be stable: which of the ascending arrangements comes back when
  elements are of equal rank is left to the algorithm of the library. The algorithms
  of the package (quicksort finishing slices of at most 7, later of at most 12
  elements by an insertion sort, the later one after a pass that compares the elements
  6 apart; pattern-defeating quicksort with an insertion sort up to 12 elements) all
  sort a slice of at most 6 elements by the plain insertion sort: each element in turn
  is swapped leftwards while it is \<^verbatim>\<open>Less\<close> than its left neighbour. \<open>sortSink\<close> sinks one element into the prefix sorted so far, held in
  reverse.

  \<open>goSort lessf xs ys\<close>: \<open>ys\<close> is a possible content of the slice after \<^verbatim>\<open>sort.Sort\<close>
  on \<open>xs\<close>. It is a permutation of \<open>xs\<close> in ascending order; nothing more is fixed on
  more than 6 elements, and on at most 6 elements it is the insertion sort of \<open>xs\<close>.
  The algorithm of the library itself is a parameter \<open>srt\<close> of the functions that
  call it, a function from \<^verbatim>\<open>Less\<close> and the slice to the sorted slice.
\<close>

type_synonym sortAlgorithm = "(string \<Rightarrow> string \<Rightarrow> bool) \<Rightarrow> string list \<Rightarrow> string list"

fun sortSink :: "('a \<Rightarrow> 'a \<Rightarrow> bool) \<Rightarrow> 'a \<Rightarrow> 'a list \<Rightarrow> 'a list" where
  "sortSink lessf x [] = [x]"
| "sortSink lessf x (y # ys) = (if lessf x y then y # sortSink lessf x ys else x # y # ys)"

fun sortLoop :: "('a \<Rightarrow> 'a \<Rightarrow> bool) \<Rightarrow> 'a list \<Rightarrow> 'a list \<Rightarrow> 'a list" where
  "sortLoop lessf pre [] = rev pre"
| "sortLoop lessf pre (x # xs) = sortLoop lessf (sortSink lessf x pre) xs"

definition insertionSort :: "('a \<Rightarrow> 'a \<Rightarrow> bool) \<Rightarrow> 'a list \<Rightarrow> 'a list" where
  "insertionSort lessf xs = sortLoop lessf [] xs"

definition goSort :: "('a \<Rightarrow> 'a \<Rightarrow> bool) \<Rightarrow> 'a list \<Rightarrow> 'a list \<Rightarrow> bool" where
  "goSort lessf xs ys \<longleftrightarrow>
     mset ys = mset xs \<and> sorted_wrt (\<lambda>a b. \<not> lessf b a) ys
     \<and> (length xs \<le> 6 \<longrightarrow> ys = insertionSort lessf xs)"

fun hasOnlyNumericKeysLoop :: "string list \<Rightarrow> bool" where
  "hasOnlyNumericKeysLoop [] = True"
| "hasOnlyNumericKeysLoop (key # keys) =
     (if \<not> snd (Atoi key) then False else hasOnlyNumericKeysLoop keys)"

definition hasOnlyNumericKeys :: "heap \<Rightarrow> addr \<Rightarrow> bool" where
  "hasOnlyNumericKeys h node = hasOnlyNumericKeysLoop (ChildKeys (h node))"

text \<open>
  \<^verbatim>\<open>Sort\<close> sorts the slice \<^verbatim>\<open>node.ChildKeys\<close> in place, as a \<^verbatim>\<open>NumericStringSlice\<close> when
  the node has only numeric keys and as a \<^verbatim>\<open>sort.StringSlice\<close> otherwise; both go
  through \<^verbatim>\<open>sort.Sort\<close>.
\<close>

definition Sort :: "sortAlgorithm \<Rightarrow> store \<Rightarrow> addr \<Rightarrow> store" where
  "Sort srt s node =
     s\<lparr>heap := (heap s)(node := (heap s node)
          \<lparr>ChildKeys := (if hasOnlyNumericKeys (heap s) node
                         then srt NumericLess (ChildKeys (heap s node))
                         else srt StringLess (ChildKeys (heap s node)))\<rparr>)\<rparr>"

section \<open>Merge and With (node.go)\<close>

text \<open>
  \<^verbatim>\<open>Merge\<close> recurses over the children of \<^verbatim>\<open>original\<close> and does not return on a
  cyclic source; \<open>fuel\<close> bounds the depth of the recursion and \<open>None\<close> is "out of fuel
  or no return". The receiver is dereferenced by \<^verbatim>\<open>Adopt\<close>, so it is an address.
\<close>

fun Merge ::
    "sortAlgorithm \<Rightarrow> nat \<Rightarrow> store \<Rightarrow> addr \<Rightarrow> ptr \<Rightarrow> (error + store \<times> ptr) option"
  and MergeChildren ::
    "sortAlgorithm \<Rightarrow> nat \<Rightarrow> store \<Rightarrow> addr \<Rightarrow> addr \<Rightarrow> string list \<Rightarrow> (error + store) option"
where
  "Merge srt 0 s node original = None"
| "Merge srt (Suc fuel) s node original =
     (case original of
        None \<Rightarrow> Some (Inr (s, None))
      | Some orig \<Rightarrow>
          (case GetNode (heap s) (Some node) [Some (VString (Key (heap s orig)))] of
             None \<Rightarrow> None
           | Some (Inl e) \<Rightarrow> Some (Inl e)
           | Some (Inr found) \<Rightarrow>
               (case (case found of
                        Some old \<Rightarrow> (s, old)
                      | None \<Rightarrow>
                          (case NewNode s (Key (heap s orig)) of
                             (sa, old) \<Rightarrow>
                               (Sort srt
                                  (Adopt (sa\<lparr>heap := (heap sa)(old :=
                                            (heap sa old)\<lparr>Parent := Some node\<rparr>)\<rparr>) node old)
                                  node,
                                old))) of
                  (s1, old) \<Rightarrow>
                    (case MergeChildren srt fuel
                            (s1\<lparr>heap := (heap s1)(old :=
                                   (heap s1 old)\<lparr>Value := Value (heap s1 orig)\<rparr>)\<rparr>)
                            old orig (ChildKeys (heap s1 orig)) of
                       None \<Rightarrow> None
                     | Some (Inl e) \<Rightarrow> Some (Inl e)
                     | Some (Inr s3) \<Rightarrow> Some (Inr (s3, Some old))))))"
| "MergeChildren srt fuel s old orig [] = Some (Inr s)"
| "MergeChildren srt fuel s old orig (key # keys) =
     (case Merge srt fuel s old (Children (heap s orig) key) of
        None \<Rightarrow> None
      | Some (Inl e) \<Rightarrow> Some (Inl e)
      | Some (Inr (s1, merged)) \<Rightarrow> MergeChildren srt fuel s1 old orig keys)"

text \<open>\<^verbatim>\<open>With()\<close> without arguments: a new scope root whose \<^verbatim>\<open>Parent\<close> is the root of
  \<^verbatim>\<open>node\<close>; called on an interior node it also creates that node's path in the new scope.\<close>

definition With :: "store \<Rightarrow> addr \<Rightarrow> (error + store \<times> addr) option" where
  "With s node =
     (case GetRoot (heap s) (Some node) of
        None \<Rightarrow> None
      | Some root \<Rightarrow>
          (case NewRoot s of
             (s1, newRoot) \<Rightarrow>
               (let s2 = s1\<lparr>heap := (heap s1)(newRoot := (heap s1 newRoot)\<lparr>Parent := root\<rparr>)\<rparr>
                in if root \<noteq> Some node
                   then (case Path (heap s2) (Some node) of
                           None \<Rightarrow> None
                         | Some (Inl e) \<Rightarrow> Some (Inl e)
                         | Some (Inr nodePath) \<Rightarrow>
                             (case internalSet s2 (Some newRoot) nodePath None of
                                Inl e \<Rightarrow> Some (Inl e)
                              | Inr (s3, argsTarget) \<Rightarrow> Some (Inr (s3, newRoot))))
                   else Some (Inr (s2, newRoot)))))"

section \<open>Escaped splitting (indexEsc, splitNEsc, splitEsc)\<close>

text \<open>
  \<^verbatim>\<open>strings.HasPrefix\<close>, \<^verbatim>\<open>strings.Index\<close> and \<^verbatim>\<open>strings.Replace\<close> (all instances)
  of Go's standard library, on byte strings. \<open>Replace\<close> with an empty \<open>old\<close> inserts
  \<open>new\<close> around every byte, which is Go's result on ASCII text.
\<close>

fun hasPrefix :: "string \<Rightarrow> string \<Rightarrow> bool" where
  "hasPrefix s [] = True"
| "hasPrefix [] (p # ps) = False"
| "hasPrefix (c # cs) (p # ps) = (c = p \<and> hasPrefix cs ps)"

fun Index :: "string \<Rightarrow> string \<Rightarrow> int" where
  "Index [] substr = (if substr = [] then 0 else - 1)"
| "Index (c # cs) substr =
     (if hasPrefix (c # cs) substr then 0
      else (let i = Index cs substr in if i < 0 then - 1 else i + 1))"

function Replace :: "string \<Rightarrow> string \<Rightarrow> string \<Rightarrow> string" where
  "Replace [] old new = (if old = [] then new else [])"
| "Replace (c # cs) old new =
     (if old = [] then new @ c # Replace cs old new
      else if hasPrefix (c # cs) old then new @ Replace (drop (length old) (c # cs)) old new
      else c # Replace cs old new)"
  by pat_completeness auto
termination
  by (relation "measure (\<lambda>(s, old, new). length s)") auto

text \<open>\<^verbatim>\<open>indexEsc\<close>: the loop carries \<^verbatim>\<open>s\<close> and \<^verbatim>\<open>totalOffset\<close>.\<close>

function indexEscLoop :: "string \<Rightarrow> string \<Rightarrow> string \<Rightarrow> int \<Rightarrow> int" where
  "indexEscLoop s substr escape totalOffset =
     (if Index s substr = - 1 then - 1
      else if escape = [] \<or> Index s substr < int (length escape)
              \<or> take (length escape) (drop (nat (Index s substr) - length escape) s) \<noteq> escape
      then totalOffset + Index s substr
      else indexEscLoop (drop (nat (Index s substr) + length substr) s) substr escape
             (totalOffset + (Index s substr + int (length substr))))"
  by pat_completeness auto
termination
proof (relation "measure (\<lambda>(s, substr, escape, totalOffset). length s)")
  show "wf (measure (\<lambda>(s, substr, escape, totalOffset). length s))" by simp
next
  fix s substr escape :: string and totalOffset :: int
  assume a: "Index s substr \<noteq> - 1"
    and b: "\<not> (escape = [] \<or> Index s substr < int (length escape)
              \<or> take (length escape) (drop (nat (Index s substr) - length escape) s) \<noteq> escape)"
  have pre: "hasPrefix t p \<Longrightarrow> length p \<le> length t" for t p :: string
    by (induction t p rule: hasPrefix.induct) auto
  have bound: "0 \<le> Index t substr \<Longrightarrow> nat (Index t substr) + length substr \<le> length t"
    for t :: string
  proof (induction t)
    case Nil
    then show ?case by (simp split: if_splits)
  next
    case (Cons c cs)
    show ?case
    proof (cases "hasPrefix (c # cs) substr")
      case True
      then show ?thesis using pre [of "c # cs" substr] by simp
    next
      case False
      then show ?thesis using Cons by (auto simp: Let_def split: if_splits)
    qed
  qed
  from b have e: "escape \<noteq> []" and i: "int (length escape) \<le> Index s substr" by auto
  from e i have pos: "0 < nat (Index s substr)" by (cases escape) auto
  from i have "0 \<le> Index s substr" by linarith
  from bound [OF this] have "nat (Index s substr) + length substr \<le> length s" .
  with pos show "((drop (nat (Index s substr) + length substr) s, substr, escape,
                   totalOffset + (Index s substr + int (length substr))),
                  (s, substr, escape, totalOffset))
                 \<in> measure (\<lambda>(s, substr, escape, totalOffset). length s)"
    by simp
qed

declare indexEscLoop.simps [simp del]

definition indexEsc :: "string \<Rightarrow> string \<Rightarrow> string \<Rightarrow> int" where
  "indexEsc s substr escape = indexEscLoop s substr escape 0"

text \<open>
  \<^verbatim>\<open>splitNEsc\<close>: with an empty separator and no limit the loop makes no progress and
  does not return, so it is a partial function.
\<close>

partial_function (option) splitNEscLoop ::
  "string \<Rightarrow> string \<Rightarrow> string \<Rightarrow> bool \<Rightarrow> int \<Rightarrow> string list \<Rightarrow> string list option" where
  "splitNEscLoop s sep escape unlimited n parts =
     (if (unlimited \<or> n > 1) \<and> s \<noteq> []
      then (if indexEsc s sep escape < 0
            then Some (parts @ [Replace s (escape @ sep) sep])
            else splitNEscLoop (drop (nat (indexEsc s sep escape) + length sep) s) sep escape
                   unlimited (n - 1)
                   (parts @ [Replace (take (nat (indexEsc s sep escape)) s) (escape @ sep) sep]))
      else Some (parts @ [Replace s (escape @ sep) sep]))"

declare splitNEscLoop.simps [code]

definition splitNEsc :: "string \<Rightarrow> string \<Rightarrow> string \<Rightarrow> int \<Rightarrow> string list option" where
  "splitNEsc s sep escape n =
     (if n = 0 then Some [] else splitNEscLoop s sep escape (n = - 1) n [])"

definition splitEsc :: "string \<Rightarrow> string \<Rightarrow> string \<Rightarrow> string list option" where
  "splitEsc s sep escape = splitNEsc s sep escape (- 1)"

section \<open>Settings engine (settings.go)\<close>

type_synonym Reply = "string \<rightharpoonup> string list"

text \<open>
  The closure \<^verbatim>\<open>parsealue\<close> of \<^verbatim>\<open>GetSettings\<close> appends to the captured \<^verbatim>\<open>reply\<close>,
  reading the captured \<^verbatim>\<open>usePrefix\<close> and \<^verbatim>\<open>prefix\<close>; here they are arguments and the
  reply is returned.
\<close>

fun parsealueLoop :: "bool \<Rightarrow> string \<Rightarrow> string list \<Rightarrow> Reply \<Rightarrow> (error + Reply) option" where
  "parsealueLoop usePrefix pfx [] reply = Some (Inr reply)"
| "parsealueLoop usePrefix pfx (value # values) reply =
     (case splitNEsc value '':'' [CHR 0x5C] 2 of
        None \<Rightarrow> None
      | Some parts \<Rightarrow>
          (case (if length parts = 2 then Inr (parts ! 0, parts ! 1)
                 else (case parts of [] \<Rightarrow> Inl IndexOutOfRange | p # _ \<Rightarrow> Inr (''value'', p))) of
             Inl e \<Rightarrow> Some (Inl e)
           | Inr (subKey0, subValue) \<Rightarrow>
               (let subKey = (if usePrefix
                              then (if subKey0 = ''value'' then pfx
                                    else pfx @ ''_'' @ subKey0)
                              else subKey0)
                in parsealueLoop usePrefix pfx values
                     (reply(subKey \<mapsto> (case reply subKey of None \<Rightarrow> [] | Some vs \<Rightarrow> vs)
                                       @ [subValue])))))"

definition parsealue :: "bool \<Rightarrow> string \<Rightarrow> Reply \<Rightarrow> string \<Rightarrow> (error + Reply) option" where
  "parsealue usePrefix pfx reply value =
     (case splitEsc value '','' [CHR 0x5C] of
        None \<Rightarrow> None
      | Some values \<Rightarrow> parsealueLoop usePrefix pfx values reply)"

text \<open>The loop that fills \<^verbatim>\<open>valueSpec\<close> from \<^verbatim>\<open>wantedKeys\<close>; \<^verbatim>\<open>key[0]\<close> panics on an
  empty key.\<close>

fun valueSpecLoop :: "heap \<Rightarrow> ptr \<Rightarrow> string list \<Rightarrow> (error + val option list) option" where
  "valueSpecLoop h node [] = Some (Inr [])"
| "valueSpecLoop h node (key # keys) =
     (case key of
        [] \<Rightarrow> Some (Inl IndexOutOfRange)
      | c # rest \<Rightarrow>
          (case (if c = CHR ''?''
                 then (case TryGet h node [Some (VString rest)] of
                         None \<Rightarrow> None
                       | Some (Inl e) \<Rightarrow> Some (Inl e)
                       | Some (Inr (Inl err)) \<Rightarrow> Some (Inr (Some (VString ''false'')))
                       | Some (Inr (Inr v)) \<Rightarrow> Some (Inr (Some (VString ''true''))))
                 else Get h node [Some (VString key)]) of
             None \<Rightarrow> None
           | Some (Inl e) \<Rightarrow> Some (Inl e)
           | Some (Inr v) \<Rightarrow>
               (case valueSpecLoop h node keys of
                  None \<Rightarrow> None
                | Some (Inl e) \<Rightarrow> Some (Inl e)
                | Some (Inr vs) \<Rightarrow> Some (Inr (v # vs)))))"

text \<open>One case of a settings group: whether it matched, and the reply after it.\<close>

definition evalCase ::
  "heap \<Rightarrow> ptr \<Rightarrow> bool \<Rightarrow> string \<Rightarrow> ptr \<Rightarrow> Reply \<Rightarrow> (error + bool \<times> Reply) option" where
  "evalCase h node usePrefix pfx caseNode reply =
     (case GetNode h caseNode [Some (VString ''default'')] of
        None \<Rightarrow> None
      | Some (Inl e) \<Rightarrow> Some (Inl e)
      | Some (Inr (Some defaultNode)) \<Rightarrow>
          (case parsealue usePrefix pfx reply (internalStringValue h (Some defaultNode)) of
             None \<Rightarrow> None
           | Some (Inl e) \<Rightarrow> Some (Inl e)
           | Some (Inr reply1) \<Rightarrow> Some (Inr (True, reply1)))
      | Some (Inr None) \<Rightarrow>
          (case GetNode h caseNode [Some (VString ''keys'')] of
             None \<Rightarrow> None
           | Some (Inl e) \<Rightarrow> Some (Inl e)
           | Some (Inr None) \<Rightarrow> Some (Inr (False, reply))
           | Some (Inr (Some keysNode)) \<Rightarrow>
               (case GetStringValues h (Some keysNode) [Some (VString ''*'')] of
                  None \<Rightarrow> None
                | Some (Inl e) \<Rightarrow> Some (Inl e)
                | Some (Inr wantedKeys) \<Rightarrow>
                    (case valueSpecLoop h node wantedKeys of
                       None \<Rightarrow> None
                     | Some (Inl e) \<Rightarrow> Some (Inl e)
                     | Some (Inr valueSpec) \<Rightarrow>
                         (case GetNode h caseNode (valueSpec @ [Some (VString ''value'')]) of
                            None \<Rightarrow> None
                          | Some (Inl e) \<Rightarrow> Some (Inl e)
                          | Some (Inr None) \<Rightarrow> Some (Inr (False, reply))
                          | Some (Inr (Some valueNode)) \<Rightarrow>
                              (case parsealue usePrefix pfx reply
                                      (internalStringValue h (Some valueNode)) of
                                 None \<Rightarrow> None
                               | Some (Inl e) \<Rightarrow> Some (Inl e)
                               | Some (Inr reply1) \<Rightarrow> Some (Inr (True, reply1))))))))"

text \<open>The loop over the cases of one group: it breaks after a matching case unless
  \<^verbatim>\<open>caseNode.GetBool("continue")\<close> holds, which is read only when the case matched.\<close>

fun casesLoop ::
  "heap \<Rightarrow> ptr \<Rightarrow> bool \<Rightarrow> string \<Rightarrow> ptr list \<Rightarrow> Reply \<Rightarrow> (error + Reply) option" where
  "casesLoop h node usePrefix pfx [] reply = Some (Inr reply)"
| "casesLoop h node usePrefix pfx (caseNode # rest) reply =
     (case evalCase h node usePrefix pfx caseNode reply of
        None \<Rightarrow> None
      | Some (Inl e) \<Rightarrow> Some (Inl e)
      | Some (Inr (matched, reply1)) \<Rightarrow>
          if matched
          then (case GetBool h caseNode [Some (VString ''continue'')] of
                  None \<Rightarrow> None
                | Some (Inl e) \<Rightarrow> Some (Inl e)
                | Some (Inr cont) \<Rightarrow>
                    if \<not> cont then Some (Inr reply1)
                    else casesLoop h node usePrefix pfx rest reply1)
          else casesLoop h node usePrefix pfx rest reply1)"

text \<open>The loop over the groups matched by the spec; \<^verbatim>\<open>settingNode.Key\<close> panics on a nil
  group node.\<close>

fun settingsLoop ::
  "heap \<Rightarrow> ptr \<Rightarrow> bool \<Rightarrow> string \<Rightarrow> ptr list \<Rightarrow> Reply \<Rightarrow> (error + Reply) option" where
  "settingsLoop h node usePrefix pfx [] reply = Some (Inr reply)"
| "settingsLoop h node usePrefix pfx (settingNode # rest) reply =
     (case (if usePrefix
            then (case settingNode of None \<Rightarrow> Inl NilDeref | Some a \<Rightarrow> Inr (Key (h a)))
            else Inr pfx) of
        Inl e \<Rightarrow> Some (Inl e)
      | Inr pfx1 \<Rightarrow>
          (case GetNodes h settingNode [Some (VString ''*'')] of
             None \<Rightarrow> None
           | Some (Inl e) \<Rightarrow> Some (Inl e)
           | Some (Inr cases) \<Rightarrow>
               (case casesLoop h node usePrefix pfx1 cases reply of
                  None \<Rightarrow> None
                | Some (Inl e) \<Rightarrow> Some (Inl e)
                | Some (Inr reply1) \<Rightarrow> settingsLoop h node usePrefix pfx1 rest reply1)))"

definition GetSettings :: "heap \<Rightarrow> ptr \<Rightarrow> val option list \<Rightarrow> (error + Reply) option" where
  "GetSettings h node keys =
     (if node = None \<or> length keys < 1 then Some (Inr Map.empty)
      else if ParseKeys keys = [] then Some (Inl IndexOutOfRange)
      else (case GetNodes h node keys of
              None \<Rightarrow> None
            | Some (Inl e) \<Rightarrow> Some (Inl e)
            | Some (Inr settingNodes) \<Rightarrow>
                settingsLoop h node (last (ParseKeys keys) = ''*'') [] settingNodes Map.empty))"

section \<open>Specification vocabulary\<close>

text \<open>The nodes a key path visits from a node, as far as the children exist.\<close>

fun walk :: "heap \<Rightarrow> addr \<Rightarrow> string list \<Rightarrow> addr list" where
  "walk h a [] = [a]"
| "walk h a (key # keys) =
     a # (case Children (h a) key of None \<Rightarrow> [] | Some child \<Rightarrow> walk h child keys)"

text \<open>
  Allocation discipline: the addresses from \<open>nxt\<close> on have not been handed out yet, so no
  node handed out refers to one of them as a child.
\<close>

definition allocated :: "store \<Rightarrow> bool" where
  "allocated s \<longleftrightarrow>
     (\<forall>a < nxt s. \<forall>key child. Children (heap s a) key = Some child \<longrightarrow> child < nxt s)"

text \<open>
  What the loop of \<^verbatim>\<open>internalSet\<close> establishes from a store \<open>s\<close> and a node \<open>a\<close>: in the
  store \<open>s1\<close> the whole path exists and ends in \<open>final\<close>; the part of the path that
  existed is the same and the rest are the nodes allocated meanwhile; nodes off the
  path are as they were; nodes that existed keep value, key, parent and flags and
  all their children; the new nodes have no value.
\<close>

definition setSpec :: "store \<Rightarrow> addr \<Rightarrow> string list \<Rightarrow> store \<Rightarrow> addr \<Rightarrow> bool" where
  "setSpec s a keys s1 final \<longleftrightarrow>
     length (walk (heap s1) a keys) = length keys + 1
     \<and> final = last (walk (heap s1) a keys)
     \<and> take (length (walk (heap s) a keys)) (walk (heap s1) a keys) = walk (heap s) a keys
     \<and> drop (length (walk (heap s) a keys)) (walk (heap s1) a keys) = [nxt s ..< nxt s1]
     \<and> (\<forall>b. b \<notin> set (walk (heap s1) a keys) \<longrightarrow> heap s1 b = heap s b)
     \<and> (\<forall>b < nxt s. Value (heap s1 b) = Value (heap s b) \<and> Key (heap s1 b) = Key (heap s b)
            \<and> Parent (heap s1 b) = Parent (heap s b) \<and> Flags (heap s1 b) = Flags (heap s b)
            \<and> Children (heap s b) \<subseteq>\<^sub>m Children (heap s1 b))
     \<and> (\<forall>b. nxt s \<le> b \<and> b < nxt s1 \<longrightarrow> Value (heap s1 b) = None)
     \<and> nxt s \<le> nxt s1 \<and> allocated s1 \<and> final < nxt s1"

text \<open>
  The data-model invariant the resolver relies on: every key of \<^verbatim>\<open>ChildKeys\<close> has an
  entry in \<^verbatim>\<open>Children\<close>.
\<close>

definition childKeysOk :: "heap \<Rightarrow> bool" where
  "childKeysOk h \<longleftrightarrow> (\<forall>a. \<forall>key \<in> set (ChildKeys (h a)). Children (h a) key \<noteq> None)"

text \<open>
  The matches of a key spec below a node in discovery order, in the words of the
  specification: a wildcard segment expands over all children in \<^verbatim>\<open>ChildKeys\<close> order,
  a literal segment takes the exact child first and the child keyed \<^verbatim>\<open>"*"\<close> second;
  a child is emitted at the last segment and searched with the remaining segments
  otherwise.
\<close>

fun discover :: "heap \<Rightarrow> addr \<Rightarrow> string list \<Rightarrow> ptr list" where
  "discover h node [] = []"
| "discover h node (seg # segs) =
     (if seg = ''*''
      then concat (map (\<lambda>key. case Children (h node) key of
                                 None \<Rightarrow> []
                               | Some child \<Rightarrow>
                                   if segs = [] then [Some child] else discover h child segs)
                       (ChildKeys (h node)))
      else (case Children (h node) seg of
              None \<Rightarrow> []
            | Some child \<Rightarrow> if segs = [] then [Some child] else discover h child segs)
           @ (case Children (h node) ''*'' of
                None \<Rightarrow> []
              | Some child \<Rightarrow> if segs = [] then [Some child] else discover h child segs))"

text \<open>
  The runs of an unbounded resolution, one per scope, nearest scope first: the run of
  the node's own scope, then the runs from the scope its root inherits from, with the
  node's path put before the keys when the node is not a scope root.
\<close>

inductive scopeRuns :: "heap \<Rightarrow> addr \<Rightarrow> string list \<Rightarrow> ptr list list \<Rightarrow> bool" for h where
  lastScope:
    "GetRoot h (Some node) = Some (Some root) \<Longrightarrow> Parent (h root) = None \<Longrightarrow>
     scopeRuns h node keys [discover h node keys]"
| fromRoot:
    "GetRoot h (Some node) = Some (Some root) \<Longrightarrow> Parent (h root) = Some parentScope \<Longrightarrow>
     Flags (h node) AND IsRoot \<noteq> 0 \<Longrightarrow> scopeRuns h parentScope keys runs \<Longrightarrow>
     scopeRuns h node keys (discover h node keys # runs)"
| fromInterior:
    "GetRoot h (Some node) = Some (Some root) \<Longrightarrow> Parent (h root) = Some parentScope \<Longrightarrow>
     Flags (h node) AND IsRoot = 0 \<Longrightarrow> Path h (Some node) = Some (Inr nodePath) \<Longrightarrow>
     scopeRuns h parentScope (nodePath @ keys) runs \<Longrightarrow>
     scopeRuns h node keys (discover h node keys # runs)"

text \<open>
  \<open>structPath h root node ks\<close>: \<open>root\<close> is the first node at or above \<open>node\<close> that is
  a scope root or has no parent, and \<open>ks\<close> are the keys of the nodes below \<open>root\<close> down
  to \<open>node\<close>. \<open>keylessUp h p\<close>: following \<^verbatim>\<open>Parent\<close> from \<open>p\<close> ends at nil and meets
  empty keys only, as the roots made by \<^verbatim>\<open>NewRoot\<close> have.
\<close>

inductive structPath :: "heap \<Rightarrow> addr \<Rightarrow> addr \<Rightarrow> string list \<Rightarrow> bool" for h where
  atRoot:
    "Parent (h root) = None \<or> Flags (h root) AND IsRoot \<noteq> 0 \<Longrightarrow> structPath h root root []"
| below:
    "Parent (h node) = Some p \<Longrightarrow> Flags (h node) AND IsRoot = 0 \<Longrightarrow> structPath h root p ks \<Longrightarrow>
     structPath h root node (ks @ [Key (h node)])"

inductive keylessUp :: "heap \<Rightarrow> ptr \<Rightarrow> bool" for h where
  atNil: "keylessUp h None"
| up: "Key (h a) = [] \<Longrightarrow> keylessUp h (Parent (h a)) \<Longrightarrow> keylessUp h (Some a)"

text \<open>
  A truthy value, as the bool getters read it: one that prints as \<^verbatim>\<open>1\<close>, \<^verbatim>\<open>t\<close>, \<^verbatim>\<open>true\<close>
  or \<^verbatim>\<open>on\<close>, in any letter case (the bool \<^verbatim>\<open>true\<close> prints as \<^verbatim>\<open>true\<close>).
\<close>

definition truthy :: "val option \<Rightarrow> bool" where
  "truthy v \<longleftrightarrow> map toLowerChar (Sprint v) \<in> set [''1'', ''t'', ''true'', ''on'']"

section \<open>Example stores\<close>

text \<open>\<^verbatim>\<open>node.SetKey(key, value)\<close> on a store, keeping the store (unchanged after a panic).\<close>

definition setKeyOf :: "store \<Rightarrow> addr \<Rightarrow> string \<Rightarrow> val option \<Rightarrow> store" where
  "setKeyOf s node key value =
     (case SetKey s (Some node) key value of Inr (s1, n) \<Rightarrow> s1 | Inl e \<Rightarrow> s)"

text \<open>
  \<^verbatim>\<open>root := NewRoot(); root.SetKey("a.x", 1); root.SetKey("b.x", 2)\<close>: the root is node 0,
  \<^verbatim>\<open>a\<close> is 1, \<^verbatim>\<open>a.x\<close> is 2, \<^verbatim>\<open>b\<close> is 3 and \<^verbatim>\<open>b.x\<close> is 4.
\<close>

definition limitTree :: store where
  "limitTree =
     setKeyOf (setKeyOf (fst (NewRoot store0)) 0 ''a.x'' (Some (VInt 1))) 0 ''b.x'' (Some (VInt 2))"

text \<open>
  \<^verbatim>\<open>root.SetKey("server.app", 1); root.SetKey("server.*", 2)\<close> on a new root: the root
  is node 0, \<^verbatim>\<open>server\<close> is 1, \<^verbatim>\<open>server.app\<close> is 2 and the node keyed \<^verbatim>\<open>"*"\<close> is 3.
\<close>

definition starTree :: store where
  "starTree =
     setKeyOf (setKeyOf (fst (NewRoot store0)) 0 ''server.app'' (Some (VInt 1)))
       0 ''server.*'' (Some (VInt 2))"

text \<open>
  A new root with the children \<^verbatim>\<open>30, 001, 01, 1, 3\<close> set in this order (nodes 1 to 5),
  and one with the children \<^verbatim>\<open>b, a, 10x\<close> (nodes 1 to 3).
\<close>

definition numericTree :: store where
  "numericTree =
     foldl (\<lambda>s key. setKeyOf s 0 key None) (fst (NewRoot store0))
       [''30'', ''001'', ''01'', ''1'', ''3'']"

definition mixedTree :: store where
  "mixedTree =
     foldl (\<lambda>s key. setKeyOf s 0 key None) (fst (NewRoot store0)) [''b'', ''a'', ''10x'']"

text \<open>\<^verbatim>\<open>node.With()\<close> on a store, keeping the store (unchanged unless it returns).\<close>

definition withOf :: "store \<Rightarrow> addr \<Rightarrow> store" where
  "withOf s node = (case With s node of Some (Inr (s1, newRoot)) \<Rightarrow> s1 | _ \<Rightarrow> s)"

text \<open>
  \<^verbatim>\<open>root := NewRoot(); first := NewNode("a.b"); second := NewNode("a.b");
  root.Adopt(first); root.Adopt(second)\<close>: the root is node 0, \<^verbatim>\<open>first\<close> is 1 and
  \<^verbatim>\<open>second\<close> is 2.
\<close>

definition dottedTree :: store where
  "dottedTree =
     Adopt (Adopt (fst (NewNode (fst (NewNode (fst (NewRoot store0)) ''a.b'')) ''a.b'')) 0 1) 0 2"

text \<open>
  \<^verbatim>\<open>dst := NewRoot(); dst.SetKey("*", 2); other := NewRoot(); src := other.SetKey("app", 1)\<close>:
  \<^verbatim>\<open>dst\<close> is node 0, its child keyed \<^verbatim>\<open>"*"\<close> is 1, \<^verbatim>\<open>other\<close> is 2 and \<^verbatim>\<open>src\<close> is 3.
\<close>

definition starMerge :: store where
  "starMerge =
     setKeyOf (fst (NewRoot (setKeyOf (fst (NewRoot store0)) 0 ''*'' (Some (VInt 2)))))
       2 ''app'' (Some (VInt 1))"

text \<open>
  \<^verbatim>\<open>base := NewRoot(); base.SetKey("main", "old"); dst := base.With();
  other := NewRoot(); src := other.SetKey("main", "new")\<close>: \<^verbatim>\<open>base\<close> is node 0, its child
  \<^verbatim>\<open>main\<close> is 1, the scope \<^verbatim>\<open>dst\<close> stacked on it is 2, \<^verbatim>\<open>other\<close> is 3 and \<^verbatim>\<open>src\<close> is 4.
\<close>

definition scopeMerge :: store where
  "scopeMerge =
     setKeyOf
       (fst (NewRoot (withOf (setKeyOf (fst (NewRoot store0)) 0 ''main'' (Some (VString ''old''))) 0)))
       3 ''main'' (Some (VString ''new''))"

text \<open>
  The settings group of C6 as the claim writes it, \<^verbatim>\<open>keys\<close> holding \<^verbatim>\<open>category\<close> only:
  the root is node 0, \<^verbatim>\<open>settings\<close> is 1, case \<^verbatim>\<open>1\<close> is 2 with \<^verbatim>\<open>default\<close> 3 and
  \<^verbatim>\<open>continue\<close> 4, case \<^verbatim>\<open>2\<close> is 5 with \<^verbatim>\<open>keys\<close> 6, \<^verbatim>\<open>keys.1\<close> 7, \<^verbatim>\<open>3041\<close> 8,
  \<^verbatim>\<open>3041.s\<close> 9 and \<^verbatim>\<open>3041.s.value\<close> 10.
\<close>

definition zipConf :: store where
  "zipConf =
     setKeyOf (setKeyOf (setKeyOf (setKeyOf (fst (NewRoot store0))
       0 ''settings.1.default'' (Some (VString ''label:Zip code'')))
       0 ''settings.1.continue'' (Some (VString ''1'')))
       0 ''settings.2.keys.1'' (Some (VString ''category'')))
       0 ''settings.2.3041.s.value'' (Some (VString ''suffix:(of house)''))"

text \<open>The context \<^verbatim>\<open>category=3041, type=s\<close> stacked on it: the scope root is node 11.\<close>

definition zipContext :: store where
  "zipContext =
     setKeyOf (setKeyOf (withOf zipConf 0) 11 ''category'' (Some (VInt 3041)))
       11 ''type'' (Some (VString ''s''))"

text \<open>
  The same group as the package documents it, \<^verbatim>\<open>keys\<close> holding \<^verbatim>\<open>category\<close> and
  \<^verbatim>\<open>type\<close>: \<^verbatim>\<open>keys.2\<close> is node 8, \<^verbatim>\<open>3041\<close> is 9, \<^verbatim>\<open>3041.s\<close> is 10 and
  \<^verbatim>\<open>3041.s.value\<close> is 11.
\<close>

definition zipConf2 :: store where
  "zipConf2 =
     setKeyOf (setKeyOf (setKeyOf (setKeyOf (setKeyOf (fst (NewRoot store0))
       0 ''settings.1.default'' (Some (VString ''label:Zip code'')))
       0 ''settings.1.continue'' (Some (VString ''1'')))
       0 ''settings.2.keys.1'' (Some (VString ''category'')))
       0 ''settings.2.keys.2'' (Some (VString ''type'')))
       0 ''settings.2.3041.s.value'' (Some (VString ''suffix:(of house)''))"

text \<open>The contexts \<^verbatim>\<open>category=3041, type=s\<close> and \<^verbatim>\<open>category=9999\<close> stacked on it: the
  scope root is node 12 in both.\<close>

definition zipContext2 :: store where
  "zipContext2 =
     setKeyOf (setKeyOf (withOf zipConf2 0) 12 ''category'' (Some (VInt 3041)))
       12 ''type'' (Some (VString ''s''))"

definition zipOther2 :: store where
  "zipOther2 = setKeyOf (withOf zipConf2 0) 12 ''category'' (Some (VInt 9999))"

text \<open>
  Three stacked scopes: \<^verbatim>\<open>de := NewRoot(); de.SetKey("de.2", "zwei");
  de.SetKey("de.1", "eins"); fr := de.With(); fr.SetKey("fr.1", "un"); en := fr.With();
  en.SetKey("en.1", "one"); en.SetKey("en.2", "two")\<close>. The root \<^verbatim>\<open>de\<close> is node 0 with
  \<^verbatim>\<open>de\<close> 1, \<^verbatim>\<open>de.2\<close> 2 and \<^verbatim>\<open>de.1\<close> 3; the scope \<^verbatim>\<open>fr\<close> is node 4 with \<^verbatim>\<open>fr\<close> 5 and
  \<^verbatim>\<open>fr.1\<close> 6; the scope \<^verbatim>\<open>en\<close> is node 7 with \<^verbatim>\<open>en\<close> 8, \<^verbatim>\<open>en.1\<close> 9 and \<^verbatim>\<open>en.2\<close> 10.
\<close>

definition langTree :: store where
  "langTree =
     setKeyOf (setKeyOf (withOf
       (setKeyOf (withOf
          (setKeyOf (setKeyOf (fst (NewRoot store0)) 0 ''de.2'' (Some (VString ''zwei'')))
             0 ''de.1'' (Some (VString ''eins'')))
          0) 4 ''fr.1'' (Some (VString ''un'')))
       4) 7 ''en.1'' (Some (VString ''one''))) 7 ''en.2'' (Some (VString ''two''))"

text \<open>
  Two stacked scopes: \<^verbatim>\<open>base := NewRoot(); base.SetKey("a.b.c", "old");
  base.SetKey("a.b.d", "deep"); top := base.With(); top.SetKey("a.b.c", "new")\<close>. The
  root \<^verbatim>\<open>base\<close> is node 0 with \<^verbatim>\<open>a\<close> 1, \<^verbatim>\<open>a.b\<close> 2, \<^verbatim>\<open>a.b.c\<close> 3 and \<^verbatim>\<open>a.b.d\<close> 4; the
  scope \<^verbatim>\<open>top\<close> is node 5 with \<^verbatim>\<open>a\<close> 6, \<^verbatim>\<open>a.b\<close> 7 and \<^verbatim>\<open>a.b.c\<close> 8.
\<close>

definition stackTree :: store where
  "stackTree =
     setKeyOf (withOf
       (setKeyOf (setKeyOf (fst (NewRoot store0)) 0 ''a.b.c'' (Some (VString ''old'')))
          0 ''a.b.d'' (Some (VString ''deep'')))
       0) 5 ''a.b.c'' (Some (VString ''new''))"

text \<open>
  Two settings groups without a scope above them. \<^verbatim>\<open>root.SetKey("g.1.default", "a");
  root.SetKey("g.1.*", "1"); root.SetKey("g.2.default", "b")\<close>: the root is node 0, \<^verbatim>\<open>g\<close>
  is 1, case \<^verbatim>\<open>1\<close> is 2 with \<^verbatim>\<open>default\<close> 3 and the child keyed \<^verbatim>\<open>"*"\<close> 4, case \<^verbatim>\<open>2\<close> is 5
  with \<^verbatim>\<open>default\<close> 6. And the same with \<^verbatim>\<open>root.SetKey("g.1.continue", "0")\<close> in the place
  of the second call: node 4 is \<^verbatim>\<open>continue\<close>.
\<close>

definition starConf :: store where
  "starConf =
     setKeyOf (setKeyOf (setKeyOf (fst (NewRoot store0))
       0 ''g.1.default'' (Some (VString ''a'')))
       0 ''g.1.*'' (Some (VString ''1'')))
       0 ''g.2.default'' (Some (VString ''b''))"

definition offConf :: store where
  "offConf =
     setKeyOf (setKeyOf (setKeyOf (fst (NewRoot store0))
       0 ''g.1.default'' (Some (VString ''a'')))
       0 ''g.1.continue'' (Some (VString ''0'')))
       0 ''g.2.default'' (Some (VString ''b''))"

text \<open>
  A settings group in a scope, its \<^verbatim>\<open>continue\<close> flag in the scope below:
  \<^verbatim>\<open>base := NewRoot(); base.SetKey("g.1.continue", "1"); top := base.With();
  top.SetKey("g.1.default", "a"); top.SetKey("g.2.default", "b")\<close>. The root \<^verbatim>\<open>base\<close> is
  node 0 with \<^verbatim>\<open>g\<close> 1, \<^verbatim>\<open>g.1\<close> 2 and \<^verbatim>\<open>g.1.continue\<close> 3; the scope \<^verbatim>\<open>top\<close> is node 4 with
  \<^verbatim>\<open>g\<close> 5, case \<^verbatim>\<open>1\<close> 6 (\<^verbatim>\<open>default\<close> 7) and case \<^verbatim>\<open>2\<close> 8 (\<^verbatim>\<open>default\<close> 9).
\<close>

definition scopeConf :: store where
  "scopeConf =
     setKeyOf (setKeyOf
       (withOf (setKeyOf (fst (NewRoot store0)) 0 ''g.1.continue'' (Some (VString ''1''))) 0)
       4 ''g.1.default'' (Some (VString ''a'')))
       4 ''g.2.default'' (Some (VString ''b''))"

section \<open>Evaluation rules\<close>

lemmas build_defs =
  setKeyOf_def SetKey_def internalSet_def NewRoot_def NewNode_def store0_def Adopt_def
  Unset_def emptyNode_def Let_def Sprint_def IsRoot_def NoFlags_def withOf_def With_def Path_def
  Depth_def

lemma GetRoot_stop:
  "Parent (h a) = None \<or> Flags (h a) AND IsRoot \<noteq> 0 \<Longrightarrow> GetRoot h (Some a) = Some (Some a)"
  by (subst GetRoot.simps) auto

lemma GetRoot_step:
  "Parent (h a) = Some p \<Longrightarrow> Flags (h a) AND IsRoot = 0 \<Longrightarrow>
   GetRoot h (Some a) = GetRoot h (Some p)"
  by (subst GetRoot.simps) auto

text \<open>One round of the scope loop, by what the pass found and where the node sits.\<close>

lemma loop_limit:
  "readNodes h limit node keys 0 res = Inr res1 \<Longrightarrow> limit > 0 \<Longrightarrow>
   int (length res1) \<ge> limit \<Longrightarrow>
   internalGetNodesLoop h limit node keys res = Some (Inr res1)"
  by (subst internalGetNodesLoop.simps) simp

lemma loop_top:
  "readNodes h limit node keys 0 res = Inr res1 \<Longrightarrow> GetRoot h (Some node) = Some (Some r) \<Longrightarrow>
   Parent (h r) = None \<Longrightarrow> internalGetNodesLoop h limit node keys res = Some (Inr res1)"
  by (subst internalGetNodesLoop.simps) simp

lemma loop_root:
  "readNodes h limit node keys 0 res = Inr res1 \<Longrightarrow>
   \<not> (limit > 0 \<and> int (length res1) \<ge> limit) \<Longrightarrow>
   GetRoot h (Some node) = Some (Some r) \<Longrightarrow> Parent (h r) = Some ps \<Longrightarrow>
   Flags (h node) AND IsRoot \<noteq> 0 \<Longrightarrow>
   internalGetNodesLoop h limit node keys res = internalGetNodesLoop h limit ps keys res1"
  by (subst internalGetNodesLoop.simps) auto

lemma loop_interior:
  "readNodes h limit node keys 0 res = Inr res1 \<Longrightarrow>
   \<not> (limit > 0 \<and> int (length res1) \<ge> limit) \<Longrightarrow>
   GetRoot h (Some node) = Some (Some r) \<Longrightarrow> Parent (h r) = Some ps \<Longrightarrow>
   Flags (h node) AND IsRoot = 0 \<Longrightarrow> Path h (Some node) = Some (Inr nodePath) \<Longrightarrow>
   internalGetNodesLoop h limit node keys res
     = internalGetNodesLoop h limit ps (nodePath @ keys) res1"
  by (subst internalGetNodesLoop.simps) auto

lemma DepthLoop_stop:
  "Parent (h a) = None \<or> Flags (h a) AND IsRoot \<noteq> 0 \<Longrightarrow> DepthLoop h (Some a) d = Some d"
  by (subst DepthLoop.simps) auto

lemma DepthLoop_step:
  "Parent (h a) = Some p \<Longrightarrow> Flags (h a) AND IsRoot = 0 \<Longrightarrow>
   DepthLoop h (Some a) d = DepthLoop h (Some p) (d + 1)"
  by (subst DepthLoop.simps) auto

lemma PathLoop_nil: "PathLoop h None d path = Some (Inr path)"
  by (subst PathLoop.simps) simp

lemma PathLoop_key:
  "Key (h a) \<noteq> [] \<Longrightarrow> 0 \<le> d - 1 \<Longrightarrow> d - 1 < int (length path) \<Longrightarrow>
   PathLoop h (Some a) d path
     = PathLoop h (Parent (h a)) (d - 1) (path[nat (d - 1) := Key (h a)])"
  by (subst PathLoop.simps) simp

lemma PathLoop_empty_key:
  "Key (h a) = [] \<Longrightarrow> PathLoop h (Some a) d path = PathLoop h (Parent (h a)) (d - 1) path"
  by (subst PathLoop.simps) simp

lemma PathLoop_panic:
  "Key (h a) \<noteq> [] \<Longrightarrow> \<not> (0 \<le> d - 1 \<and> d - 1 < int (length path)) \<Longrightarrow>
   PathLoop h (Some a) d path = Some (Inl IndexOutOfRange)"
  by (subst PathLoop.simps) auto

lemmas eval_rules =
  GetRoot_stop GetRoot_step loop_limit loop_top loop_root loop_interior DepthLoop_stop
  DepthLoop_step PathLoop_nil PathLoop_key PathLoop_empty_key PathLoop_panic readNodes.simps
  readNodesStar.simps

lemmas getter_defs =
  GetNode_def GetNodeDefault_def TryGetNode_def internalTryGetNode_def internalGetNodes_def
  GetNodes_def TryGet_def Get_def

section \<open>The result limit\<close>

text \<open>
  C1. A limit greater than 0 is meant to stop the expansion once the result count
  reaches it, so that no more than \<open>limit\<close> nodes come back. The \<^verbatim>\<open>return\<close> that
  follows an append ends only the innermost call of \<^verbatim>\<open>readNodes\<close>; the loop of the
  enclosing wildcard level goes on to the next child. On the tree \<^verbatim>\<open>a.x=1, b.x=2\<close>
  the spec \<^verbatim>\<open>*.x\<close> with limit 1 returns both leaves.
\<close>

theorem limit_exceeded_by_sibling_branch:
  "internalGetNodes (heap limitTree) (Some 0) [''*'', ''x''] 1 = Some (Inr [Some 2, Some 4])"
  apply (simp add: internalGetNodes_def)
  apply (subst internalGetNodesLoop.simps)
  apply (simp add: limitTree_def build_defs readNodes.simps readNodesStar.simps)
  done

section \<open>Nil nodes and empty specs\<close>

text \<open>
  C2, as amended. Neither the resolver nor the settings engine panics on a nil
  starting node or an empty key spec. A nil node gives the empty node list and the
  empty reply, and an empty spec gives the empty reply; the resolver on an empty spec
  and a node that is not nil returns the list holding that node itself, not an empty
  list.
\<close>

theorem nil_node_or_empty_spec:
  "internalGetNodes h None parsedKeys limit = Some (Inr [])
   \<and> GetNodes h None keys = Some (Inr [])
   \<and> GetSettings h None keys = Some (Inr Map.empty)
   \<and> GetSettings h node [] = Some (Inr Map.empty)
   \<and> internalGetNodes h (Some a) [] limit = Some (Inr [Some a])
   \<and> GetNodes h (Some a) [] = Some (Inr [Some a])"
  by (simp add: internalGetNodes_def GetNodes_def GetSettings_def)

text \<open>C2 as stated fails on a fresh root: \<^verbatim>\<open>NewRoot().GetNodes()\<close> is not empty.\<close>

theorem empty_spec_returns_the_node:
  "GetNodes (heap (fst (NewRoot store0))) (Some (snd (NewRoot store0))) [] \<noteq> Some (Inr [])"
  by (simp add: internalGetNodes_def GetNodes_def build_defs)

section \<open>Literal segments and the child keyed "*"\<close>

lemma starTree_heap:
  "heap starTree =
     (heap store0)
       (0 := \<lparr>Key = [], Value = None, Children = [''server'' \<mapsto> 1], ChildKeys = [''server''],
              Parent = None, Flags = IsRoot\<rparr>,
        1 := \<lparr>Key = ''server'', Value = None, Children = [''app'' \<mapsto> 2, ''*'' \<mapsto> 3],
              ChildKeys = [''app'', ''*''], Parent = Some 0, Flags = NoFlags\<rparr>,
        2 := \<lparr>Key = ''app'', Value = Some (VInt 1), Children = Map.empty, ChildKeys = [],
              Parent = Some 1, Flags = NoFlags\<rparr>,
        3 := \<lparr>Key = ''*'', Value = Some (VInt 2), Children = Map.empty, ChildKeys = [],
              Parent = Some 1, Flags = NoFlags\<rparr>)"
  by (simp add: starTree_def build_defs fun_eq_iff)

lemma starTree_nxt: "nxt starTree = 4"
  by (simp add: starTree_def build_defs)

text \<open>
  C3, as amended. At a literal (non-wildcard) segment a pass first follows the child
  with exactly that key, if there is one, and then, whether or not the exact child
  exists, the child whose key is the string \<^verbatim>\<open>"*"\<close>, if there is one; each branch
  appends its node when the segment is the last one and descends with the next
  segment otherwise, so both may contribute. There is one exception: when the segment
  is the last one, the exact child exists and appending it fills a limit greater than
  0, the pass returns at once and the child keyed \<^verbatim>\<open>"*"\<close> is not looked at. The
  unbounded resolver (limit 0, the one behind \<^verbatim>\<open>GetNodes\<close>) therefore always explores
  both branches, and the single-result lookups (limit 1: \<^verbatim>\<open>GetNode\<close>, \<^verbatim>\<open>Get\<close>) return
  the exact match alone. On the tree \<^verbatim>\<open>server.app=1, server.*=2\<close>, \<^verbatim>\<open>GetNodes("app")\<close>
  from \<^verbatim>\<open>server\<close> returns the exact match (value 1) and then the fallback (value 2),
  and \<^verbatim>\<open>GetNode("app")\<close> returns the exact match.
\<close>

theorem literal_segment_explores_exact_and_star:
  "(index < length spec \<and> spec ! index \<noteq> ''*'' \<longrightarrow>
    readNodes h 0 node spec index result =
      (case (case Children (h node) (spec ! index) of
               None \<Rightarrow> Inr result
             | Some exact \<Rightarrow>
                 if index + 1 = length spec then Inr (result @ [Some exact])
                 else readNodes h 0 exact spec (index + 1) result) of
         Inl e \<Rightarrow> Inl e
       | Inr result1 \<Rightarrow>
           (case Children (h node) ''*'' of
              None \<Rightarrow> Inr result1
            | Some star \<Rightarrow>
                if index + 1 = length spec then Inr (result1 @ [Some star])
                else readNodes h 0 star spec (index + 1) result1)))
   \<and> (index < length spec \<and> spec ! index \<noteq> ''*''
        \<and> \<not> (index + 1 = length spec \<and> Children (h node) (spec ! index) \<noteq> None
              \<and> limit > 0 \<and> int (length result) + 1 \<ge> limit) \<longrightarrow>
    readNodes h limit node spec index result =
      (case (case Children (h node) (spec ! index) of
               None \<Rightarrow> Inr result
             | Some exact \<Rightarrow>
                 if index + 1 = length spec then Inr (result @ [Some exact])
                 else readNodes h limit exact spec (index + 1) result) of
         Inl e \<Rightarrow> Inl e
       | Inr result1 \<Rightarrow>
           (case Children (h node) ''*'' of
              None \<Rightarrow> Inr result1
            | Some star \<Rightarrow>
                if index + 1 = length spec then Inr (result1 @ [Some star])
                else readNodes h limit star spec (index + 1) result1)))
   \<and> (index + 1 = length spec \<and> spec ! index \<noteq> ''*''
        \<and> Children (h node) (spec ! index) = Some exact
        \<and> limit > 0 \<and> int (length result) + 1 \<ge> limit \<longrightarrow>
    readNodes h limit node spec index result = Inr (result @ [Some exact]))
   \<and> GetNodes (heap starTree) (Some 1) [Some (VString ''app'')] = Some (Inr [Some 2, Some 3])
   \<and> GetNode (heap starTree) (Some 1) [Some (VString ''app'')] = Some (Inr (Some 2))
   \<and> Value (heap starTree 2) = Some (VInt 1) \<and> Value (heap starTree 3) = Some (VInt 2)"
proof (intro conjI impI)
  assume a: "index < length spec \<and> spec ! index \<noteq> ''*''"
  then have "index + 1 \<noteq> length spec \<Longrightarrow> \<not> length spec \<le> index + 1" by simp
  with a show "readNodes h 0 node spec index result =
      (case (case Children (h node) (spec ! index) of
               None \<Rightarrow> Inr result
             | Some exact \<Rightarrow>
                 if index + 1 = length spec then Inr (result @ [Some exact])
                 else readNodes h 0 exact spec (index + 1) result) of
         Inl e \<Rightarrow> Inl e
       | Inr result1 \<Rightarrow>
           (case Children (h node) ''*'' of
              None \<Rightarrow> Inr result1
            | Some star \<Rightarrow>
                if index + 1 = length spec then Inr (result1 @ [Some star])
                else readNodes h 0 star spec (index + 1) result1))"
    by (subst readNodes.simps) (simp add: readNodesStar.simps split: option.splits sum.splits)
next
  assume a: "index < length spec \<and> spec ! index \<noteq> ''*''
        \<and> \<not> (index + 1 = length spec \<and> Children (h node) (spec ! index) \<noteq> None
              \<and> limit > 0 \<and> int (length result) + 1 \<ge> limit)"
  then have "index + 1 \<noteq> length spec \<Longrightarrow> \<not> length spec \<le> index + 1" by simp
  with a show "readNodes h limit node spec index result =
      (case (case Children (h node) (spec ! index) of
               None \<Rightarrow> Inr result
             | Some exact \<Rightarrow>
                 if index + 1 = length spec then Inr (result @ [Some exact])
                 else readNodes h limit exact spec (index + 1) result) of
         Inl e \<Rightarrow> Inl e
       | Inr result1 \<Rightarrow>
           (case Children (h node) ''*'' of
              None \<Rightarrow> Inr result1
            | Some star \<Rightarrow>
                if index + 1 = length spec then Inr (result1 @ [Some star])
                else readNodes h limit star spec (index + 1) result1))"
    by (subst readNodes.simps)
       (auto simp add: readNodesStar.simps split: option.splits sum.splits)
next
  assume "index + 1 = length spec \<and> spec ! index \<noteq> ''*''
        \<and> Children (h node) (spec ! index) = Some exact
        \<and> limit > 0 \<and> int (length result) + 1 \<ge> limit"
  then show "readNodes h limit node spec index result = Inr (result @ [Some exact])"
    by (subst readNodes.simps) auto
next
  show "GetNodes (heap starTree) (Some 1) [Some (VString ''app'')] = Some (Inr [Some 2, Some 3])"
    by (simp add: GetNodes_def internalGetNodes_def loop_top [where r = 0] eval_rules
          starTree_heap Sprint_def IsRoot_def NoFlags_def)
next
  show "GetNode (heap starTree) (Some 1) [Some (VString ''app'')] = Some (Inr (Some 2))"
    by (simp add: getter_defs eval_rules starTree_heap Sprint_def)
next
  show "Value (heap starTree 2) = Some (VInt 1)" by (simp add: starTree_heap)
next
  show "Value (heap starTree 3) = Some (VInt 2)" by (simp add: starTree_heap)
qed

theorem literal_segment_witness:
  "(0::nat) < length [''app''] \<and> [''app''] ! 0 \<noteq> ''*''
   \<and> Children (heap starTree 1) ''app'' = Some 2 \<and> Children (heap starTree 1) ''*'' = Some 3
   \<and> readNodes (heap starTree) 0 1 [''app''] 0 [] = Inr [Some 2, Some 3]
   \<and> readNodes (heap starTree) 2 1 [''app''] 0 [] = Inr [Some 2, Some 3]
   \<and> readNodes (heap starTree) 1 1 [''app''] 0 [] = Inr [Some 2]"
  using literal_segment_explores_exact_and_star [of 0 "[''app'']" "heap starTree" 1 "[]" 2]
    literal_segment_explores_exact_and_star [of 0 "[''app'']" "heap starTree" 1 "[]" 1 2]
  by (simp add: starTree_heap)

text \<open>
  C3 as stated fails for a lookup with limit 1: on the tree \<^verbatim>\<open>server.app=1,
  server.*=2\<close> the child keyed \<^verbatim>\<open>"*"\<close> is there, and resolving \<^verbatim>\<open>app\<close> from \<^verbatim>\<open>server\<close>
  with limit 1 returns the exact match alone.
\<close>

theorem literal_segment_limit_skips_star:
  "internalGetNodes (heap starTree) (Some 1) [''app''] 1 = Some (Inr [Some 2])
   \<and> Children (heap starTree 1) ''*'' = Some 3
   \<and> Children (heap starTree 1) ''app'' = Some 2"
  by (simp add: internalGetNodes_def eval_rules starTree_heap)

section \<open>Sort\<close>

text \<open>The insertion sort keeps the elements, sorts them by rank and keeps the order of
  elements of equal rank, so it is the stable sort by that rank.\<close>

lemma sortSink_mset: "mset (sortSink lessf x pre) = add_mset x (mset pre)"
  by (induction pre) auto

lemma sortLoop_mset: "mset (sortLoop lessf pre xs) = mset pre + mset xs"
  by (induction xs arbitrary: pre) (auto simp: sortSink_mset)

lemma insertionSort_mset: "mset (insertionSort lessf xs) = mset xs"
  by (simp add: insertionSort_def sortLoop_mset)

lemma sortSink_set: "set (sortSink lessf x pre) = insert x (set pre)"
  by (induction pre) auto

lemma sortSink_sorted:
  fixes f :: "'a \<Rightarrow> 'b::linorder"
  shows "sorted (map f (rev pre)) \<Longrightarrow>
         sorted (map f (rev (sortSink (\<lambda>a b. f a < f b) x pre)))"
proof (induction pre)
  case Nil
  then show ?case by simp
next
  case (Cons y ys)
  then show ?case
    by (auto simp: sorted_append sortSink_set)
qed

lemma sortLoop_sorted:
  fixes f :: "'a \<Rightarrow> 'b::linorder"
  shows "sorted (map f (rev pre)) \<Longrightarrow> sorted (map f (sortLoop (\<lambda>a b. f a < f b) pre xs))"
  by (induction xs arbitrary: pre) (auto simp: sortSink_sorted)

lemma insertionSort_sorted:
  fixes f :: "'a \<Rightarrow> 'b::linorder"
  shows "sorted (map f (insertionSort (\<lambda>a b. f a < f b) xs))"
  by (simp add: insertionSort_def sortLoop_sorted)

lemma sortSink_filter:
  fixes f :: "'a \<Rightarrow> 'b::linorder"
  shows "filter (\<lambda>z. f z = k) (rev (sortSink (\<lambda>a b. f a < f b) x pre))
         = filter (\<lambda>z. f z = k) (rev pre @ [x])"
  by (induction pre) auto

lemma sortLoop_filter:
  fixes f :: "'a \<Rightarrow> 'b::linorder"
  shows "filter (\<lambda>z. f z = k) (sortLoop (\<lambda>a b. f a < f b) pre xs)
         = filter (\<lambda>z. f z = k) (rev pre @ xs)"
proof (induction xs arbitrary: pre)
  case Nil
  then show ?case by simp
next
  case (Cons x xs)
  have "filter (\<lambda>z. f z = k)
          (sortLoop (\<lambda>a b. f a < f b) (sortSink (\<lambda>a b. f a < f b) x pre) xs)
        = filter (\<lambda>z. f z = k) (rev (sortSink (\<lambda>a b. f a < f b) x pre))
          @ filter (\<lambda>z. f z = k) xs"
    using Cons.IH by simp
  then show ?case by (simp add: sortSink_filter)
qed

lemma insertionSort_stable:
  fixes f :: "'a \<Rightarrow> 'b::linorder"
  shows "insertionSort (\<lambda>a b. f a < f b) xs = sort_key f xs"
proof (rule sym, rule properties_for_sort_key)
  show "mset (insertionSort (\<lambda>a b. f a < f b) xs) = mset xs" by (rule insertionSort_mset)
next
  fix k
  have "filter (\<lambda>z. f z = f k) (insertionSort (\<lambda>a b. f a < f b) xs)
        = filter (\<lambda>z. f z = f k) xs"
    by (simp add: insertionSort_def sortLoop_filter)
  then show "filter (\<lambda>x. f k = f x) (insertionSort (\<lambda>a b. f a < f b) xs)
             = filter (\<lambda>x. f k = f x) xs"
    by (simp add: eq_commute)
next
  show "sorted (map f (insertionSort (\<lambda>a b. f a < f b) xs))" by (rule insertionSort_sorted)
qed

text \<open>What \<open>goSort\<close> says for a comparison of ranks, and that it has an outcome.\<close>

lemma goSort_rank:
  fixes f :: "'a \<Rightarrow> 'b::linorder"
  shows "goSort (\<lambda>a b. f a < f b) xs ys \<longleftrightarrow>
           mset ys = mset xs \<and> sorted (map f ys) \<and> (length xs \<le> 6 \<longrightarrow> ys = sort_key f xs)"
  by (simp add: goSort_def insertionSort_stable sorted_map not_less)

lemma goSort_total:
  fixes f :: "'a \<Rightarrow> 'b::linorder"
  shows "goSort (\<lambda>a b. f a < f b) xs (sort_key f xs)"
  by (simp add: goSort_rank)

lemma hasOnlyNumericKeysLoop_iff:
  "hasOnlyNumericKeysLoop keys \<longleftrightarrow> (\<forall>key \<in> set keys. snd (Atoi key))"
  by (induction keys) auto

lemma NumericLess_rank: "NumericLess = (\<lambda>a b. fst (Atoi a) < fst (Atoi b))"
  by (simp add: NumericLess_def fun_eq_iff)

lemma StringLess_rank: "StringLess = (\<lambda>a b. a < b)"
  by (simp add: StringLess_def fun_eq_iff)

lemma Sort_ChildKeys:
  "ChildKeys (heap (Sort srt s node) node)
   = (if \<forall>key \<in> set (ChildKeys (heap s node)). snd (Atoi key)
      then srt NumericLess (ChildKeys (heap s node))
      else srt StringLess (ChildKeys (heap s node)))"
  by (simp add: Sort_def hasOnlyNumericKeys_def hasOnlyNumericKeysLoop_iff)

lemma numericTree_keys: "ChildKeys (heap numericTree 0) = [''30'', ''001'', ''01'', ''1'', ''3'']"
  by (simp add: numericTree_def build_defs)

lemma mixedTree_keys: "ChildKeys (heap mixedTree 0) = [''b'', ''a'', ''10x'']"
  by (simp add: mixedTree_def build_defs)

lemma numericTree_ranks:
  "map (\<lambda>key. Atoi key) [''30'', ''001'', ''01'', ''1'', ''3'']
   = [(30, True), (1, True), (1, True), (1, True), (3, True)]"
  by (simp add: Atoi_def isDigit_def)

lemma mixedTree_ranks: "\<not> snd (Atoi ''b'')"
  by (simp add: Atoi_def isDigit_def)

lemma numericTree_sorted:
  "sort_key (\<lambda>key. fst (Atoi key)) [''30'', ''001'', ''01'', ''1'', ''3'']
   = [''001'', ''01'', ''1'', ''3'', ''30'']"
  using numericTree_ranks by (simp add: sort_key_def)

lemma mixedTree_sorted: "sort_key (\<lambda>key. key) [''b'', ''a'', ''10x''] = [''10x'', ''a'', ''b'']"
  by (simp add: sort_key_def)

text \<open>
  C8. Whatever algorithm \<^verbatim>\<open>sort.Sort\<close> runs, as long as it does on the child keys what
  \<^verbatim>\<open>sort.Sort\<close> is known to do (\<open>goSort\<close>): after \<^verbatim>\<open>Sort\<close> the \<^verbatim>\<open>ChildKeys\<close> of the node
  are a permutation of the previous ones, and its \<^verbatim>\<open>Children\<close> map and the other nodes
  are as they were. Exactly when every child key parses as an integer the keys come
  out in ascending order of their integer values, and otherwise in ascending
  byte-wise order of the strings, which fixes the result. Among keys of equal integer
  value \<^verbatim>\<open>sort.Sort\<close> promises no order; on at most 6 keys, where it is the insertion
  sort, they keep their previous relative order (the result is the stable sort).
  Children set in the order \<^verbatim>\<open>30, 001, 01, 1, 3\<close> sort as \<^verbatim>\<open>001, 01, 1, 3, 30\<close>, and
  children \<^verbatim>\<open>b, a, 10x\<close> sort as \<^verbatim>\<open>10x, a, b\<close>.
\<close>

theorem Sort_numeric_or_lexicographic:
  "(goSort (if \<forall>key \<in> set (ChildKeys (heap s node)). snd (Atoi key)
            then NumericLess else StringLess)
      (ChildKeys (heap s node))
      (srt (if \<forall>key \<in> set (ChildKeys (heap s node)). snd (Atoi key)
            then NumericLess else StringLess) (ChildKeys (heap s node))) \<longrightarrow>
      mset (ChildKeys (heap (Sort srt s node) node)) = mset (ChildKeys (heap s node))
      \<and> Children (heap (Sort srt s node) node) = Children (heap s node)
      \<and> (\<forall>b. b \<noteq> node \<longrightarrow> heap (Sort srt s node) b = heap s b)
      \<and> ((\<forall>key \<in> set (ChildKeys (heap s node)). snd (Atoi key)) \<longrightarrow>
           sorted (map (\<lambda>key. fst (Atoi key)) (ChildKeys (heap (Sort srt s node) node))))
      \<and> (\<not> (\<forall>key \<in> set (ChildKeys (heap s node)). snd (Atoi key)) \<longrightarrow>
           sorted (ChildKeys (heap (Sort srt s node) node))
           \<and> ChildKeys (heap (Sort srt s node) node)
             = sort_key (\<lambda>key. key) (ChildKeys (heap s node)))
      \<and> (length (ChildKeys (heap s node)) \<le> 6 \<longrightarrow>
           ChildKeys (heap (Sort srt s node) node)
           = (if \<forall>key \<in> set (ChildKeys (heap s node)). snd (Atoi key)
              then sort_key (\<lambda>key. fst (Atoi key)) (ChildKeys (heap s node))
              else sort_key (\<lambda>key. key) (ChildKeys (heap s node)))))
   \<and> (goSort NumericLess [''30'', ''001'', ''01'', ''1'', ''3'']
         (srt NumericLess [''30'', ''001'', ''01'', ''1'', ''3'']) \<longrightarrow>
       ChildKeys (heap (Sort srt numericTree 0) 0) = [''001'', ''01'', ''1'', ''3'', ''30''])
   \<and> (goSort StringLess [''b'', ''a'', ''10x''] (srt StringLess [''b'', ''a'', ''10x'']) \<longrightarrow>
       ChildKeys (heap (Sort srt mixedTree 0) 0) = [''10x'', ''a'', ''b''])"
proof (intro conjI)
  let ?num = "\<forall>key \<in> set (ChildKeys (heap s node)). snd (Atoi key)"
  let ?xs = "ChildKeys (heap s node)"
  let ?ys = "ChildKeys (heap (Sort srt s node) node)"
  show "goSort (if ?num then NumericLess else StringLess) ?xs
          (srt (if ?num then NumericLess else StringLess) ?xs) \<longrightarrow>
      mset ?ys = mset ?xs
      \<and> Children (heap (Sort srt s node) node) = Children (heap s node)
      \<and> (\<forall>b. b \<noteq> node \<longrightarrow> heap (Sort srt s node) b = heap s b)
      \<and> (?num \<longrightarrow> sorted (map (\<lambda>key. fst (Atoi key)) ?ys))
      \<and> (\<not> ?num \<longrightarrow> sorted ?ys \<and> ?ys = sort_key (\<lambda>key. key) ?xs)
      \<and> (length ?xs \<le> 6 \<longrightarrow>
           ?ys = (if ?num then sort_key (\<lambda>key. fst (Atoi key)) ?xs
                  else sort_key (\<lambda>key. key) ?xs))"
  proof
    assume g: "goSort (if ?num then NumericLess else StringLess) ?xs
                 (srt (if ?num then NumericLess else StringLess) ?xs)"
    have rest: "Children (heap (Sort srt s node) node) = Children (heap s node)"
      "\<forall>b. b \<noteq> node \<longrightarrow> heap (Sort srt s node) b = heap s b"
      by (simp_all add: Sort_def)
    show "mset ?ys = mset ?xs
      \<and> Children (heap (Sort srt s node) node) = Children (heap s node)
      \<and> (\<forall>b. b \<noteq> node \<longrightarrow> heap (Sort srt s node) b = heap s b)
      \<and> (?num \<longrightarrow> sorted (map (\<lambda>key. fst (Atoi key)) ?ys))
      \<and> (\<not> ?num \<longrightarrow> sorted ?ys \<and> ?ys = sort_key (\<lambda>key. key) ?xs)
      \<and> (length ?xs \<le> 6 \<longrightarrow>
           ?ys = (if ?num then sort_key (\<lambda>key. fst (Atoi key)) ?xs
                  else sort_key (\<lambda>key. key) ?xs))"
    proof (cases ?num)
      case True
      then have ys: "?ys = srt NumericLess ?xs" unfolding Sort_ChildKeys by (rule if_P)
      from g True have "goSort (\<lambda>a b. fst (Atoi a) < fst (Atoi b)) ?xs (srt NumericLess ?xs)"
        by (simp add: NumericLess_rank)
      then have "mset (srt NumericLess ?xs) = mset ?xs"
        "sorted (map (\<lambda>key. fst (Atoi key)) (srt NumericLess ?xs))"
        "length ?xs \<le> 6 \<longrightarrow> srt NumericLess ?xs = sort_key (\<lambda>key. fst (Atoi key)) ?xs"
        by (simp_all add: goSort_rank)
      with True rest show ?thesis by (auto simp: ys)
    next
      case False
      then have ys: "?ys = srt StringLess ?xs" unfolding Sort_ChildKeys by (rule if_not_P)
      from g False have "goSort (\<lambda>a b. (\<lambda>key. key) a < (\<lambda>key. key) b) ?xs (srt StringLess ?xs)"
        by (simp add: StringLess_rank)
      then have m: "mset (srt StringLess ?xs) = mset ?xs"
        and so: "sorted (map (\<lambda>key. key) (srt StringLess ?xs))"
        by (simp_all only: goSort_rank)
      from so have so': "sorted (srt StringLess ?xs)" by simp
      have "sort_key (\<lambda>key. key) ?xs = srt StringLess ?xs"
        using m so' by (rule properties_for_sort)
      with False rest so' m show ?thesis by (auto simp: ys)
    qed
  qed
  show "goSort NumericLess [''30'', ''001'', ''01'', ''1'', ''3'']
         (srt NumericLess [''30'', ''001'', ''01'', ''1'', ''3'']) \<longrightarrow>
       ChildKeys (heap (Sort srt numericTree 0) 0) = [''001'', ''01'', ''1'', ''3'', ''30'']"
  proof
    assume "goSort NumericLess [''30'', ''001'', ''01'', ''1'', ''3'']
              (srt NumericLess [''30'', ''001'', ''01'', ''1'', ''3''])"
    then have "goSort (\<lambda>a b. fst (Atoi a) < fst (Atoi b)) [''30'', ''001'', ''01'', ''1'', ''3'']
                 (srt NumericLess [''30'', ''001'', ''01'', ''1'', ''3''])"
      by (simp only: NumericLess_rank)
    moreover have "length [''30'', ''001'', ''01'', ''1'', ''3''] \<le> 6" by simp
    ultimately have "srt NumericLess [''30'', ''001'', ''01'', ''1'', ''3'']
               = sort_key (\<lambda>key. fst (Atoi key)) [''30'', ''001'', ''01'', ''1'', ''3'']"
      unfolding goSort_rank by blast
    then have e: "srt NumericLess [''30'', ''001'', ''01'', ''1'', ''3'']
                  = [''001'', ''01'', ''1'', ''3'', ''30'']"
      by (simp only: numericTree_sorted)
    have "ChildKeys (heap (Sort srt numericTree 0) 0)
          = srt NumericLess [''30'', ''001'', ''01'', ''1'', ''3'']"
      using numericTree_ranks by (simp add: Sort_ChildKeys numericTree_keys)
    with e show "ChildKeys (heap (Sort srt numericTree 0) 0)
                 = [''001'', ''01'', ''1'', ''3'', ''30'']"
      by simp
  qed
  show "goSort StringLess [''b'', ''a'', ''10x''] (srt StringLess [''b'', ''a'', ''10x'']) \<longrightarrow>
       ChildKeys (heap (Sort srt mixedTree 0) 0) = [''10x'', ''a'', ''b'']"
  proof
    assume "goSort StringLess [''b'', ''a'', ''10x''] (srt StringLess [''b'', ''a'', ''10x''])"
    then have "goSort (\<lambda>a b. (\<lambda>key. key) a < (\<lambda>key. key) b) [''b'', ''a'', ''10x'']
                 (srt StringLess [''b'', ''a'', ''10x''])"
      by (simp only: StringLess_rank)
    moreover have "length [''b'', ''a'', ''10x''] \<le> 6" by simp
    ultimately have "srt StringLess [''b'', ''a'', ''10x'']
                     = sort_key (\<lambda>key. key) [''b'', ''a'', ''10x'']"
      unfolding goSort_rank by blast
    then have e: "srt StringLess [''b'', ''a'', ''10x''] = [''10x'', ''a'', ''b'']"
      by (simp only: mixedTree_sorted)
    have "ChildKeys (heap (Sort srt mixedTree 0) 0) = srt StringLess [''b'', ''a'', ''10x'']"
      using mixedTree_ranks by (simp add: Sort_ChildKeys mixedTree_keys)
    with e show "ChildKeys (heap (Sort srt mixedTree 0) 0) = [''10x'', ''a'', ''b'']"
      by simp
  qed
qed

theorem Sort_witness:
  "goSort NumericLess [''30'', ''001'', ''01'', ''1'', ''3'']
     (insertionSort NumericLess [''30'', ''001'', ''01'', ''1'', ''3''])
   \<and> goSort StringLess [''b'', ''a'', ''10x''] (insertionSort StringLess [''b'', ''a'', ''10x''])
   \<and> list_all (\<lambda>key. snd (Atoi key)) (ChildKeys (heap numericTree 0))
   \<and> \<not> list_all (\<lambda>key. snd (Atoi key)) (ChildKeys (heap mixedTree 0))
   \<and> length (ChildKeys (heap numericTree 0)) \<le> 6
   \<and> length (ChildKeys (heap mixedTree 0)) \<le> 6
   \<and> ChildKeys (heap (Sort insertionSort numericTree 0) 0) = [''001'', ''01'', ''1'', ''3'', ''30'']
   \<and> sorted (map (\<lambda>key. fst (Atoi key)) (ChildKeys (heap (Sort insertionSort numericTree 0) 0)))
   \<and> ChildKeys (heap (Sort insertionSort numericTree 0) 0)
     = sort_key (\<lambda>key. fst (Atoi key)) [''30'', ''001'', ''01'', ''1'', ''3'']
   \<and> ChildKeys (heap (Sort insertionSort mixedTree 0) 0) = [''10x'', ''a'', ''b'']
   \<and> sorted (ChildKeys (heap (Sort insertionSort mixedTree 0) 0))
   \<and> ChildKeys (heap (Sort insertionSort mixedTree 0) 0)
     = sort_key (\<lambda>key. key) [''b'', ''a'', ''10x'']"
proof -
  have a: "goSort NumericLess [''30'', ''001'', ''01'', ''1'', ''3'']
             (insertionSort NumericLess [''30'', ''001'', ''01'', ''1'', ''3''])"
    by (simp add: NumericLess_rank goSort_rank insertionSort_stable)
  have b: "goSort StringLess [''b'', ''a'', ''10x''] (insertionSort StringLess [''b'', ''a'', ''10x''])"
    using goSort_total [of "\<lambda>key. key" "[''b'', ''a'', ''10x'']"]
    by (simp add: StringLess_rank insertionSort_stable)
  have n: "\<forall>key \<in> set (ChildKeys (heap numericTree 0)). snd (Atoi key)"
    using numericTree_ranks by (simp add: numericTree_keys)
  have m: "\<not> (\<forall>key \<in> set (ChildKeys (heap mixedTree 0)). snd (Atoi key))"
    using mixedTree_ranks by (simp add: mixedTree_keys)
  have n': "list_all (\<lambda>key. snd (Atoi key)) (ChildKeys (heap numericTree 0))"
    using n by (simp add: list_all_iff)
  have m': "\<not> list_all (\<lambda>key. snd (Atoi key)) (ChildKeys (heap mixedTree 0))"
    using m by (simp add: list_all_iff)
  have l: "length (ChildKeys (heap numericTree 0)) \<le> 6" "length (ChildKeys (heap mixedTree 0)) \<le> 6"
    by (simp_all add: numericTree_keys mixedTree_keys)
  from a n have a': "goSort (if \<forall>key \<in> set (ChildKeys (heap numericTree 0)). snd (Atoi key)
            then NumericLess else StringLess)
      (ChildKeys (heap numericTree 0))
      (insertionSort (if \<forall>key \<in> set (ChildKeys (heap numericTree 0)). snd (Atoi key)
            then NumericLess else StringLess) (ChildKeys (heap numericTree 0)))"
    by (simp add: numericTree_keys)
  from b mixedTree_ranks have b': "goSort (if \<forall>key \<in> set (ChildKeys (heap mixedTree 0)). snd (Atoi key)
            then NumericLess else StringLess)
      (ChildKeys (heap mixedTree 0))
      (insertionSort (if \<forall>key \<in> set (ChildKeys (heap mixedTree 0)). snd (Atoi key)
            then NumericLess else StringLess) (ChildKeys (heap mixedTree 0)))"
    by (simp add: mixedTree_keys)
  note t1 = Sort_numeric_or_lexicographic [of numericTree 0 insertionSort]
  note t2 = Sort_numeric_or_lexicographic [of mixedTree 0 insertionSort]
  from t1 a have r1: "ChildKeys (heap (Sort insertionSort numericTree 0) 0)
                      = [''001'', ''01'', ''1'', ''3'', ''30'']" by blast
  from t1 a' n have r2: "sorted (map (\<lambda>key. fst (Atoi key))
                           (ChildKeys (heap (Sort insertionSort numericTree 0) 0)))" by blast
  from t2 b have r3: "ChildKeys (heap (Sort insertionSort mixedTree 0) 0) = [''10x'', ''a'', ''b'']"
    by blast
  from t2 b' m have r4: "sorted (ChildKeys (heap (Sort insertionSort mixedTree 0) 0))" by blast
  from r1 have r5: "ChildKeys (heap (Sort insertionSort numericTree 0) 0)
                    = sort_key (\<lambda>key. fst (Atoi key)) [''30'', ''001'', ''01'', ''1'', ''3'']"
    by (simp only: numericTree_sorted)
  from r3 have r6: "ChildKeys (heap (Sort insertionSort mixedTree 0) 0)
                    = sort_key (\<lambda>key. key) [''b'', ''a'', ''10x'']"
    by (simp only: mixedTree_sorted)
  show ?thesis
    by (intro conjI a b n' m' l r1 r2 r3 r4 r5 r6)
qed

section \<open>Merge\<close>

text \<open>
  C7. \<^verbatim>\<open>Merge\<close> looks the destination node up with \<^verbatim>\<open>node.GetNode(original.Key)\<close>,
  the wildcard- and scope-aware resolver, where \<^verbatim>\<open>internalSet\<close> reads
  \<^verbatim>\<open>node.Children[key]\<close>. Merging a leaf \<^verbatim>\<open>app=1\<close> into a destination whose only
  child is keyed \<^verbatim>\<open>"*"\<close> (value 2) finds that child: no node \<^verbatim>\<open>app\<close> is created under
  the destination and the value of the sibling \<^verbatim>\<open>"*"\<close> is overwritten with 1. Merging
  a leaf \<^verbatim>\<open>main="new"\<close> into an empty scope stacked on a tree holding \<^verbatim>\<open>main="old"\<close>
  finds the node of the ancestor scope: the scope stays empty and the ancestor's
  value is overwritten. Neither call reaches \<^verbatim>\<open>node.Sort()\<close>, so the sort algorithm
  \<open>srt\<close> is any.
\<close>

theorem Merge_overwrites_resolved_node:
  "(case Merge srt (Suc 0) starMerge 0 (Some 3) of
      Some (Inr (s, merged)) \<Rightarrow>
        merged = Some 1 \<and> Children (heap s 0) ''app'' = None \<and> ChildKeys (heap s 0) = [''*'']
        \<and> Value (heap s 1) = Some (VInt 1) \<and> nxt s = nxt starMerge
    | _ \<Rightarrow> False)
   \<and> Value (heap starMerge 1) = Some (VInt 2)
   \<and> (case Merge srt (Suc 0) scopeMerge 2 (Some 4) of
         Some (Inr (s, merged)) \<Rightarrow>
           merged = Some 1 \<and> ChildKeys (heap s 2) = [] \<and> Children (heap s 2) ''main'' = None
           \<and> Value (heap s 1) = Some (VString ''new'') \<and> nxt s = nxt scopeMerge
       | _ \<Rightarrow> False)
   \<and> Value (heap scopeMerge 1) = Some (VString ''old'')
   \<and> Parent (heap scopeMerge 2) = Some 0 \<and> Flags (heap scopeMerge 2) = IsRoot"
proof (intro conjI)
  show "case Merge srt (Suc 0) starMerge 0 (Some 3) of
      Some (Inr (s, merged)) \<Rightarrow>
        merged = Some 1 \<and> Children (heap s 0) ''app'' = None \<and> ChildKeys (heap s 0) = [''*'']
        \<and> Value (heap s 1) = Some (VInt 1) \<and> nxt s = nxt starMerge
    | _ \<Rightarrow> False"
    by (simp add: starMerge_def build_defs getter_defs eval_rules)
  show "Value (heap starMerge 1) = Some (VInt 2)"
    by (simp add: starMerge_def build_defs)
  have scope: "heap scopeMerge =
      (heap store0)
        (0 := \<lparr>Key = [], Value = None, Children = [''main'' \<mapsto> 1], ChildKeys = [''main''],
               Parent = None, Flags = IsRoot\<rparr>,
         1 := \<lparr>Key = ''main'', Value = Some (VString ''old''), Children = Map.empty,
               ChildKeys = [], Parent = Some 0, Flags = NoFlags\<rparr>,
         2 := \<lparr>Key = [], Value = None, Children = Map.empty, ChildKeys = [],
               Parent = Some 0, Flags = IsRoot\<rparr>,
         3 := \<lparr>Key = [], Value = None, Children = [''main'' \<mapsto> 4], ChildKeys = [''main''],
               Parent = None, Flags = IsRoot\<rparr>,
         4 := \<lparr>Key = ''main'', Value = Some (VString ''new''), Children = Map.empty,
               ChildKeys = [], Parent = Some 3, Flags = NoFlags\<rparr>)"
    and nx: "nxt scopeMerge = 5"
    by (simp_all add: scopeMerge_def build_defs eval_rules fun_eq_iff)
  have pass: "readNodes (heap scopeMerge) 1 2 [''main''] 0 [] = Inr []"
    by (simp add: scope eval_rules)
  have up: "internalGetNodesLoop (heap scopeMerge) 1 0 [''main''] [] = Some (Inr [Some 1])"
    by (rule loop_limit) (simp_all add: scope eval_rules)
  have "internalGetNodesLoop (heap scopeMerge) 1 2 [''main''] []
        = internalGetNodesLoop (heap scopeMerge) 1 0 [''main''] []"
    by (rule loop_root [OF pass, where r = 2]) (simp_all add: scope eval_rules IsRoot_def)
  with up have get: "GetNode (heap scopeMerge) (Some 2) [Some (VString ''main'')] = Some (Inr (Some 1))"
    by (simp add: getter_defs Sprint_def)
  have key: "Key (heap scopeMerge 4) = ''main''" by (simp add: scope)
  show "case Merge srt (Suc 0) scopeMerge 2 (Some 4) of
         Some (Inr (s, merged)) \<Rightarrow>
           merged = Some 1 \<and> ChildKeys (heap s 2) = [] \<and> Children (heap s 2) ''main'' = None
           \<and> Value (heap s 1) = Some (VString ''new'') \<and> nxt s = nxt scopeMerge
       | _ \<Rightarrow> False"
    by (simp add: key get) (simp add: scope)
  show "Value (heap scopeMerge 1) = Some (VString ''old'')" by (simp add: scope)
  show "Parent (heap scopeMerge 2) = Some 0" by (simp add: scope)
  show "Flags (heap scopeMerge 2) = IsRoot" by (simp add: scope)
qed

section \<open>The child-order invariant\<close>

text \<open>
  C9. \<^verbatim>\<open>Adopt\<close> evicts a child that holds the key of the adopted node with
  \<^verbatim>\<open>node.Unset(other.Key)\<close>, and \<^verbatim>\<open>Unset\<close> parses its argument as a dotted path. A key
  that contains a dot is therefore looked up as a path and the old child is not
  removed: after two nodes keyed \<^verbatim>\<open>a.b\<close> are adopted by one parent, \<^verbatim>\<open>ChildKeys\<close>
  holds the key twice, the first node still names the parent as its \<^verbatim>\<open>Parent\<close> and the
  map holds the second node only.
\<close>

theorem Adopt_duplicates_dotted_key:
  "ChildKeys (heap dottedTree 0) = [''a.b'', ''a.b'']
   \<and> \<not> distinct (ChildKeys (heap dottedTree 0))
   \<and> Children (heap dottedTree 0) ''a.b'' = Some 2
   \<and> Parent (heap dottedTree 1) = Some 0 \<and> Parent (heap dottedTree 2) = Some 0"
  by (simp add: dottedTree_def build_defs)

section \<open>internalSet\<close>

lemma walk_nonempty: "walk h a keys \<noteq> []"
  by (cases keys) auto

lemma walk_start: "a \<in> set (walk h a keys)"
  by (cases keys) auto

lemma walk_cong_Children:
  "(\<And>b. Children (h' b) = Children (h b)) \<Longrightarrow> walk h' a keys = walk h a keys"
  by (induction keys arbitrary: a) (auto split: option.splits)

lemma Adopt_fresh:
  "Parent (heap s child) = None \<Longrightarrow> Children (heap s node) (Key (heap s child)) = None \<Longrightarrow>
   child \<noteq> node \<Longrightarrow>
   Adopt s node child =
     s\<lparr>heap := (heap s)
          (node := (heap s node)
             \<lparr>Children := (Children (heap s node))(Key (heap s child) \<mapsto> child),
              ChildKeys := ChildKeys (heap s node) @ [Key (heap s child)]\<rparr>,
           child := (heap s child)\<lparr>Parent := Some node\<rparr>)\<rparr>"
  by (simp add: Adopt_def Let_def)

lemma internalSetLoop_spec:
  "allocated s \<Longrightarrow> a < nxt s \<Longrightarrow>
   setSpec s a keys (fst (internalSetLoop s a keys)) (snd (internalSetLoop s a keys))"
proof (induction keys arbitrary: s a)
  case Nil
  then show ?case by (auto simp: setSpec_def)
next
  case (Cons k ks)
  show ?case
  proof (cases "Children (heap s a) k")
    case (Some c)
    with Cons.prems have c: "c < nxt s" by (auto simp: allocated_def)
    define s1 where "s1 = fst (internalSetLoop s c ks)"
    define final where "final = snd (internalSetLoop s c ks)"
    have ih: "setSpec s c ks s1 final"
      unfolding s1_def final_def using Cons.IH [OF Cons.prems(1) c] .
    have res: "internalSetLoop s a (k # ks) = (s1, final)"
      using Some by (simp add: s1_def final_def)
    from ih Cons.prems(2) Some have ch: "Children (heap s1 a) k = Some c"
      by (auto simp: setSpec_def map_le_def dom_def)
    have w1: "walk (heap s1) a (k # ks) = a # walk (heap s1) c ks" using ch by simp
    have w0: "walk (heap s) a (k # ks) = a # walk (heap s) c ks" using Some by simp
    show ?thesis
      unfolding res fst_conv snd_conv
      using ih walk_nonempty [of "heap s1" c ks]
      by (simp add: setSpec_def w1 w0 del: walk.simps)
  next
    case None
    define c where "c = nxt s"
    define s2 where "s2 = Adopt (fst (NewNode s k)) a c"
    have ac: "a \<noteq> c" using Cons.prems(2) by (simp add: c_def)
    have h2: "heap s2 = (heap s)(c := (emptyNode k)\<lparr>Parent := Some a\<rparr>,
                 a := (heap s a)\<lparr>Children := (Children (heap s a))(k \<mapsto> c),
                                 ChildKeys := ChildKeys (heap s a) @ [k]\<rparr>)"
      and n2: "nxt s2 = Suc c"
      using None ac
      by (auto simp: s2_def NewNode_def c_def [symmetric] Adopt_fresh emptyNode_def fun_eq_iff)
    have al2: "allocated s2"
      using Cons.prems ac
      by (auto simp: allocated_def h2 n2 c_def emptyNode_def less_Suc_eq split: if_splits)
    have c2: "c < nxt s2" by (simp add: n2)
    define s1 where "s1 = fst (internalSetLoop s2 c ks)"
    define final where "final = snd (internalSetLoop s2 c ks)"
    have ih: "setSpec s2 c ks s1 final"
      unfolding s1_def final_def using Cons.IH [OF al2 c2] .
    have res: "internalSetLoop s a (k # ks) = (s1, final)"
      using None by (simp add: s1_def final_def s2_def NewNode_def c_def)
    have a2: "a < nxt s2" using Cons.prems(2) by (simp add: n2 c_def)
    have "Children (heap s2 a) k = Some c" using ac by (simp add: h2)
    with ih a2 have ch: "Children (heap s1 a) k = Some c"
      by (auto simp: setSpec_def map_le_def dom_def)
    have w1: "walk (heap s1) a (k # ks) = a # walk (heap s1) c ks" using ch by simp
    have w0: "walk (heap s) a (k # ks) = [a]" using None by simp
    have w2: "walk (heap s2) c ks = [c]"
      by (cases ks) (simp_all add: h2 emptyNode_def ac [symmetric])
    from ih have tk: "take 1 (walk (heap s1) c ks) = [c]"
      and dr: "drop 1 (walk (heap s1) c ks) = [Suc c ..< nxt s1]"
      and le: "Suc c \<le> nxt s1"
      by (simp_all add: setSpec_def w2 n2)
    have "walk (heap s1) c ks = take 1 (walk (heap s1) c ks) @ drop 1 (walk (heap s1) c ks)"
      by simp
    also have "\<dots> = c # [Suc c ..< nxt s1]" by (simp only: tk dr) simp
    also have "\<dots> = [c ..< nxt s1]" using le by (simp add: upt_conv_Cons)
    finally have wc: "walk (heap s1) c ks = [nxt s ..< nxt s1]" by (simp add: c_def)
    have cin: "c \<in> set (walk (heap s1) c ks)" by (rule walk_start)
    have frame: "heap s1 b = heap s b" if "b \<notin> set (walk (heap s1) a (k # ks))" for b
    proof -
      from that have "b \<noteq> a" "b \<notin> set (walk (heap s1) c ks)"
        by (simp_all add: w1 del: walk.simps)
      with ih have "heap s1 b = heap s2 b" by (simp add: setSpec_def)
      moreover from \<open>b \<notin> set (walk (heap s1) c ks)\<close> cin have "b \<noteq> c" by auto
      ultimately show ?thesis using \<open>b \<noteq> a\<close> by (simp add: h2)
    qed
    have old: "Value (heap s1 b) = Value (heap s b) \<and> Key (heap s1 b) = Key (heap s b)
            \<and> Parent (heap s1 b) = Parent (heap s b) \<and> Flags (heap s1 b) = Flags (heap s b)
            \<and> Children (heap s b) \<subseteq>\<^sub>m Children (heap s1 b)" if "b < nxt s" for b
    proof -
      from that have b2: "b < nxt s2" and bc: "b \<noteq> c" by (simp_all add: n2 c_def)
      from ih b2 have *: "Value (heap s1 b) = Value (heap s2 b) \<and> Key (heap s1 b) = Key (heap s2 b)
            \<and> Parent (heap s1 b) = Parent (heap s2 b) \<and> Flags (heap s1 b) = Flags (heap s2 b)
            \<and> Children (heap s2 b) \<subseteq>\<^sub>m Children (heap s1 b)"
        by (simp add: setSpec_def)
      have "Children (heap s b) \<subseteq>\<^sub>m Children (heap s2 b)"
        using None bc by (auto simp: h2 map_le_def)
      with * bc show ?thesis
        by (auto simp: h2 intro: map_le_trans)
    qed
    have new: "Value (heap s1 b) = None" if "nxt s \<le> b \<and> b < nxt s1" for b
    proof (cases "b = c")
      case True
      with ih c2 have "Value (heap s1 b) = Value (heap s2 c)" by (simp add: setSpec_def)
      then show ?thesis using ac by (simp add: h2 emptyNode_def)
    next
      case False
      with that have "nxt s2 \<le> b \<and> b < nxt s1" by (simp add: n2 c_def)
      with ih show ?thesis by (simp add: setSpec_def)
    qed
    from ih have rest: "length (walk (heap s1) c ks) = length ks + 1"
      "final = last (walk (heap s1) c ks)" "allocated s1" "final < nxt s1"
      by (simp_all add: setSpec_def)
    show ?thesis
      unfolding res fst_conv snd_conv setSpec_def
      using frame old new rest le [unfolded c_def] walk_nonempty [of "heap s1" c ks]
      by (simp add: w1 w0 wc del: walk.simps)
  qed
qed

lemma walk_last_in: "last (walk h a keys) \<in> set (walk h a keys)"
  using walk_nonempty [of h a keys] by simp

text \<open>
  C10. With an empty key list \<^verbatim>\<open>internalSet\<close> returns nil and the store as it was. With
  a non-empty key list, from a node of a store that keeps the allocation discipline,
  it returns the node \<open>final\<close> at the end of the path, which now exists in full. The
  nodes of the path that existed before are the same ones, and the remaining nodes of
  the path are exactly the nodes allocated by the call: only the missing nodes are
  created. A node off the path is unchanged. Every node that existed keeps its key,
  parent and flags and all its children, and keeps its value unless it is \<open>final\<close>.
  The value of \<open>final\<close> is the value supplied when that is not nil; with a nil value
  it is the value \<open>final\<close> had, or nil when \<open>final\<close> is new; the other new nodes have
  no value.
\<close>

theorem internalSet_creates_missing_path:
  "internalSet s node [] value = Inr (s, None)
   \<and> (keys \<noteq> [] \<and> allocated s \<and> a < nxt s \<longrightarrow>
       (\<exists>s1 final.
          internalSet s (Some a) keys value = Inr (s1, Some final)
          \<and> length (walk (heap s1) a keys) = length keys + 1
          \<and> final = last (walk (heap s1) a keys)
          \<and> take (length (walk (heap s) a keys)) (walk (heap s1) a keys) = walk (heap s) a keys
          \<and> drop (length (walk (heap s) a keys)) (walk (heap s1) a keys) = [nxt s ..< nxt s1]
          \<and> (\<forall>b. b \<notin> set (walk (heap s1) a keys) \<longrightarrow> heap s1 b = heap s b)
          \<and> (\<forall>b < nxt s. b \<noteq> final \<longrightarrow> Value (heap s1 b) = Value (heap s b))
          \<and> (\<forall>b < nxt s. Key (heap s1 b) = Key (heap s b) \<and> Parent (heap s1 b) = Parent (heap s b)
                \<and> Flags (heap s1 b) = Flags (heap s b)
                \<and> Children (heap s b) \<subseteq>\<^sub>m Children (heap s1 b))
          \<and> Value (heap s1 final)
              = (if value \<noteq> None then value
                 else if final < nxt s then Value (heap s final) else None)
          \<and> (\<forall>b. nxt s \<le> b \<and> b < nxt s1 \<and> b \<noteq> final \<longrightarrow> Value (heap s1 b) = None)))"
proof (intro conjI impI)
  show "internalSet s node [] value = Inr (s, None)" by (simp add: internalSet_def)
next
  assume hyp: "keys \<noteq> [] \<and> allocated s \<and> a < nxt s"
  define s0 where "s0 = fst (internalSetLoop s a keys)"
  define final where "final = snd (internalSetLoop s a keys)"
  define s1 where "s1 = (if value \<noteq> None
      then s0\<lparr>heap := (heap s0)(final := (heap s0 final)\<lparr>Value := value\<rparr>)\<rparr> else s0)"
  have spec: "setSpec s a keys s0 final"
    unfolding s0_def final_def using hyp by (simp add: internalSetLoop_spec)
  have res: "internalSet s (Some a) keys value = Inr (s1, Some final)"
    using hyp by (simp add: internalSet_def s1_def s0_def final_def split_beta)
  have ch: "Children (heap s1 b) = Children (heap s0 b)" for b
    by (simp add: s1_def)
  have w: "walk (heap s1) a keys = walk (heap s0) a keys"
    by (rule walk_cong_Children) (rule ch)
  have nx: "nxt s1 = nxt s0" by (simp add: s1_def)
  have fin: "final \<in> set (walk (heap s0) a keys)"
    using spec walk_last_in [of "heap s0" a keys] by (simp add: setSpec_def)
  have other: "heap s1 b = heap s0 b" if "b \<noteq> final" for b
    using that by (simp add: s1_def)
  have kpf: "Key (heap s1 b) = Key (heap s0 b) \<and> Parent (heap s1 b) = Parent (heap s0 b)
             \<and> Flags (heap s1 b) = Flags (heap s0 b)" for b
    by (simp add: s1_def)
  have val: "Value (heap s1 final) = (if value \<noteq> None then value else Value (heap s0 final))"
    by (simp add: s1_def)
  have v0: "Value (heap s0 final) = (if final < nxt s then Value (heap s final) else None)"
    using spec by (auto simp: setSpec_def not_less)
  show "\<exists>s1 final.
          internalSet s (Some a) keys value = Inr (s1, Some final)
          \<and> length (walk (heap s1) a keys) = length keys + 1
          \<and> final = last (walk (heap s1) a keys)
          \<and> take (length (walk (heap s) a keys)) (walk (heap s1) a keys) = walk (heap s) a keys
          \<and> drop (length (walk (heap s) a keys)) (walk (heap s1) a keys) = [nxt s ..< nxt s1]
          \<and> (\<forall>b. b \<notin> set (walk (heap s1) a keys) \<longrightarrow> heap s1 b = heap s b)
          \<and> (\<forall>b < nxt s. b \<noteq> final \<longrightarrow> Value (heap s1 b) = Value (heap s b))
          \<and> (\<forall>b < nxt s. Key (heap s1 b) = Key (heap s b) \<and> Parent (heap s1 b) = Parent (heap s b)
                \<and> Flags (heap s1 b) = Flags (heap s b)
                \<and> Children (heap s b) \<subseteq>\<^sub>m Children (heap s1 b))
          \<and> Value (heap s1 final)
              = (if value \<noteq> None then value
                 else if final < nxt s then Value (heap s final) else None)
          \<and> (\<forall>b. nxt s \<le> b \<and> b < nxt s1 \<and> b \<noteq> final \<longrightarrow> Value (heap s1 b) = None)"
  proof (intro exI conjI allI impI)
    show "internalSet s (Some a) keys value = Inr (s1, Some final)" by (rule res)
    show "length (walk (heap s1) a keys) = length keys + 1"
      using spec by (simp add: w setSpec_def)
    show "final = last (walk (heap s1) a keys)" using spec by (simp add: w setSpec_def)
    show "take (length (walk (heap s) a keys)) (walk (heap s1) a keys) = walk (heap s) a keys"
      using spec by (simp add: w setSpec_def)
    show "drop (length (walk (heap s) a keys)) (walk (heap s1) a keys) = [nxt s ..< nxt s1]"
      using spec by (simp add: w nx setSpec_def)
    show "heap s1 b = heap s b" if "b \<notin> set (walk (heap s1) a keys)" for b
    proof -
      from that fin have "b \<noteq> final" by (auto simp: w)
      with that spec show ?thesis by (simp add: other w setSpec_def)
    qed
    show "Value (heap s1 b) = Value (heap s b)" if "b < nxt s" "b \<noteq> final" for b
      using that spec by (simp add: other setSpec_def)
    show "Key (heap s1 b) = Key (heap s b)" if "b < nxt s" for b
      using that spec kpf [of b] by (simp add: setSpec_def)
    show "Parent (heap s1 b) = Parent (heap s b)" if "b < nxt s" for b
      using that spec kpf [of b] by (simp add: setSpec_def)
    show "Flags (heap s1 b) = Flags (heap s b)" if "b < nxt s" for b
      using that spec kpf [of b] by (simp add: setSpec_def)
    show "Children (heap s b) \<subseteq>\<^sub>m Children (heap s1 b)" if "b < nxt s" for b
      using that spec by (simp add: ch setSpec_def)
    show "Value (heap s1 final)
              = (if value \<noteq> None then value
                 else if final < nxt s then Value (heap s final) else None)"
      by (simp add: val v0)
    show "Value (heap s1 b) = None" if "nxt s \<le> b \<and> b < nxt s1 \<and> b \<noteq> final" for b
      using that spec by (simp add: other nx setSpec_def)
  qed
qed

lemma starTree_allocated: "allocated starTree"
  by (auto simp: allocated_def starTree_heap starTree_nxt split: if_splits)

text \<open>On the tree \<^verbatim>\<open>server.app=1, server.*=2\<close>, setting \<^verbatim>\<open>server.db.port\<close> to 5432
  creates the nodes 4 and 5 below \<^verbatim>\<open>server\<close> and touches nothing off the path.\<close>

theorem internalSet_witness:
  "[''server'', ''db'', ''port''] \<noteq> [] \<and> allocated starTree \<and> 0 < nxt starTree
   \<and> walk (heap starTree) 0 [''server'', ''db'', ''port''] = [0, 1]
   \<and> (\<exists>s1. internalSet starTree (Some 0) [''server'', ''db'', ''port''] (Some (VInt 5432))
              = Inr (s1, Some 5)
         \<and> walk (heap s1) 0 [''server'', ''db'', ''port''] = [0, 1, 4, 5]
         \<and> nxt s1 = 6
         \<and> Value (heap s1 5) = Some (VInt 5432)
         \<and> (\<forall>b. b \<notin> {0, 1, 4, 5} \<longrightarrow> heap s1 b = heap starTree b))"
proof -
  let ?keys = "[''server'', ''db'', ''port'']"
  let ?v = "Some (VInt 5432)"
  have w: "walk (heap starTree) 0 ?keys = [0, 1]"
    by (simp add: starTree_heap)
  have n: "(0::nat) < nxt starTree" by (simp add: starTree_nxt)
  have "?keys \<noteq> [] \<and> allocated starTree \<and> 0 < nxt starTree"
    using starTree_allocated n by simp
  with internalSet_creates_missing_path [of starTree "Some 0" ?v ?keys 0]
  obtain s1 final where
    r: "internalSet starTree (Some 0) ?keys ?v = Inr (s1, Some final)"
    and l: "length (walk (heap s1) 0 ?keys) = length ?keys + 1"
    and f: "final = last (walk (heap s1) 0 ?keys)"
    and t: "take (length (walk (heap starTree) 0 ?keys)) (walk (heap s1) 0 ?keys)
            = walk (heap starTree) 0 ?keys"
    and d: "drop (length (walk (heap starTree) 0 ?keys)) (walk (heap s1) 0 ?keys)
            = [nxt starTree ..< nxt s1]"
    and fr: "\<forall>b. b \<notin> set (walk (heap s1) 0 ?keys) \<longrightarrow> heap s1 b = heap starTree b"
    and v: "Value (heap s1 final)
            = (if ?v \<noteq> None then ?v
               else if final < nxt starTree then Value (heap starTree final) else None)"
    by blast
  from t have t2: "take 2 (walk (heap s1) 0 ?keys) = [0, 1]"
    by (simp only: w) simp
  from d have d2: "drop 2 (walk (heap s1) 0 ?keys) = [4 ..< nxt s1]"
    by (simp only: w starTree_nxt) simp
  from l have l4: "length (walk (heap s1) 0 ?keys) = 4" by (simp del: walk.simps)
  have "length (drop 2 (walk (heap s1) 0 ?keys)) = 2" using l4 by (simp del: walk.simps)
  then have "length [4 ..< nxt s1] = 2" by (simp only: d2)
  then have nx: "nxt s1 = 6" by simp
  have "walk (heap s1) 0 ?keys
        = take 2 (walk (heap s1) 0 ?keys) @ drop 2 (walk (heap s1) 0 ?keys)"
    by (simp del: walk.simps)
  also have "\<dots> = [0, 1] @ [4 ..< 6]" by (simp only: t2 d2 nx)
  also have "\<dots> = [0, 1, 4, 5]" by (simp add: upt_rec)
  finally have wk: "walk (heap s1) 0 ?keys = [0, 1, 4, 5]" .
  from f have f5: "final = 5" by (simp only: wk) simp
  from v have v5: "Value (heap s1 5) = Some (VInt 5432)" by (simp add: f5)
  from fr have fr5: "\<forall>b. b \<notin> {0, 1, 4, 5} \<longrightarrow> heap s1 b = heap starTree b"
    by (simp only: wk) simp
  from r have r5: "internalSet starTree (Some 0) ?keys ?v = Inr (s1, Some 5)"
    by (simp only: f5)
  show ?thesis
    using r5 wk nx v5 fr5 w n starTree_allocated by blast
qed

section \<open>Resolution order\<close>

lemma drop_index: "index < length spec \<Longrightarrow> drop index spec = spec ! index # drop (Suc index) spec"
  by (simp add: Cons_nth_drop_Suc)

lemma readNodes_discover_all:
  "(childKeysOk h \<longrightarrow> limit = 0 \<longrightarrow> index < length spec \<longrightarrow>
      readNodes h limit node spec index result
        = Inr (result @ discover h node (drop index spec)))"
  "(childKeysOk h \<longrightarrow> limit = 0 \<longrightarrow> index < length spec \<longrightarrow>
      set keys \<subseteq> set (ChildKeys (h node)) \<longrightarrow>
      readNodesEach h limit node spec index keys result
        = Inr (result @ concat (map (\<lambda>key. case Children (h node) key of
                                 None \<Rightarrow> []
                               | Some child \<Rightarrow>
                                   if drop (Suc index) spec = [] then [Some child]
                                   else discover h child (drop (Suc index) spec)) keys)))"
  "(childKeysOk h \<longrightarrow> limit = 0 \<longrightarrow> index < length spec \<longrightarrow>
      readNodesStar h limit node spec index result
        = Inr (result @ (case Children (h node) ''*'' of
                None \<Rightarrow> []
              | Some child \<Rightarrow>
                  if drop (Suc index) spec = [] then [Some child]
                  else discover h child (drop (Suc index) spec))))"
proof (induction h limit node spec index result and h limit node spec index keys result
         and h limit node spec index result
       rule: readNodes_readNodesEach_readNodesStar.induct)
  case (1 h limit node spec index result)
  show ?case
  proof (intro impI)
    assume ok: "childKeysOk h" and l: "limit = 0" and i: "index < length spec"
    have last: "drop (Suc index) spec = [] \<longleftrightarrow> index + 1 = length spec" using i by auto
    show "readNodes h limit node spec index result = Inr (result @ discover h node (drop index spec))"
    proof (cases "spec ! index = ''*''")
      case True
      with 1(1) ok l i show ?thesis
        by (subst readNodes.simps) (simp add: drop_index split: option.splits)
    next
      case False
      show ?thesis
      proof (cases "Children (h node) (spec ! index)")
        case None
        with 1(2) False ok l i show ?thesis
          by (subst readNodes.simps) (simp add: drop_index split: option.splits)
      next
        case (Some c)
        show ?thesis
        proof (cases "index + 1 = length spec")
          case True
          with 1(3) [OF _ False Some True] False Some ok l i last show ?thesis
            by (subst readNodes.simps) (simp add: drop_index split: option.splits)
        next
          case ne: False
          then have i1: "index + 1 < length spec" using i by simp
          from 1(4) [OF _ False Some ne] ok l i1 i
          have r: "readNodes h limit c spec (index + 1) result
                   = Inr (result @ discover h c (drop (index + 1) spec))" by simp
          from 1(5) [OF _ False Some ne r] ok l i
          have s: "readNodesStar h limit node spec index (result @ discover h c (drop (index + 1) spec))
               = Inr ((result @ discover h c (drop (index + 1) spec)) @ (case Children (h node) ''*'' of
                None \<Rightarrow> []
              | Some child \<Rightarrow>
                  if drop (Suc index) spec = [] then [Some child]
                  else discover h child (drop (Suc index) spec)))" by simp
          show ?thesis
            using False Some ne i r s last
            by (subst readNodes.simps) (simp add: drop_index split: option.splits)
        qed
      qed
    qed
  qed
next
  case (2 h limit node spec index result)
  then show ?case by simp
next
  case (3 h limit node spec index key keys result)
  show ?case
  proof (intro impI)
    assume ok: "childKeysOk h" and l: "limit = 0" and i: "index < length spec"
      and sub: "set (key # keys) \<subseteq> set (ChildKeys (h node))"
    have last: "drop (Suc index) spec = [] \<longleftrightarrow> index + 1 = length spec" using i by auto
    from ok sub have "Children (h node) key \<noteq> None"
      unfolding childKeysOk_def by simp
    then obtain c where c: "Children (h node) key = Some c" by blast
    from sub have sub': "set keys \<subseteq> set (ChildKeys (h node))" by simp
    show "readNodesEach h limit node spec index (key # keys) result =
          Inr (result @ concat (map (\<lambda>key. case Children (h node) key of
                                 None \<Rightarrow> []
                               | Some child \<Rightarrow>
                                   if drop (Suc index) spec = [] then [Some child]
                                   else discover h child (drop (Suc index) spec)) (key # keys)))"
    proof (cases "index + 1 = length spec")
      case True
      with 3(1) [OF True] ok l i sub' c last show ?thesis by (simp split: option.splits)
    next
      case ne: False
      then have i1: "index + 1 < length spec" "\<not> length spec \<le> index + 1" using i by simp_all
      from 3(2) [OF ne i1(2) c] ok l i1
      have r: "readNodes h limit c spec (index + 1) result
                   = Inr (result @ discover h c (drop (index + 1) spec))" by simp
      from 3(3) [OF ne i1(2) c r] ok l i sub'
      have e: "readNodesEach h limit node spec index keys (result @ discover h c (drop (index + 1) spec))
          = Inr ((result @ discover h c (drop (index + 1) spec)) @ concat (map (\<lambda>key. case Children (h node) key of
                                 None \<Rightarrow> []
                               | Some child \<Rightarrow>
                                   if drop (Suc index) spec = [] then [Some child]
                                   else discover h child (drop (Suc index) spec)) keys))" by simp
      show ?thesis using ne i1 c r e last by (simp split: option.splits)
    qed
  qed
next
  case (4 h limit node spec index result)
  show ?case
  proof (intro impI)
    assume ok: "childKeysOk h" and l: "limit = 0" and i: "index < length spec"
    have last: "drop (Suc index) spec = [] \<longleftrightarrow> index + 1 = length spec" using i by auto
    show "readNodesStar h limit node spec index result =
          Inr (result @ (case Children (h node) ''*'' of
                None \<Rightarrow> []
              | Some child \<Rightarrow>
                  if drop (Suc index) spec = [] then [Some child]
                  else discover h child (drop (Suc index) spec)))"
    proof (cases "Children (h node) ''*''")
      case None
      then show ?thesis by (simp add: readNodesStar.simps)
    next
      case (Some c)
      show ?thesis
      proof (cases "index + 1 = length spec")
        case True
        with Some last show ?thesis by (simp add: readNodesStar.simps)
      next
        case ne: False
        then have i1: "index + 1 < length spec" "\<not> length spec \<le> index + 1" using i by simp_all
        from 4 [OF Some ne i1(2)] ok l i1
        have "readNodes h limit c spec (index + 1) result
                   = Inr (result @ discover h c (drop (index + 1) spec))" by simp
        with Some ne i1 last show ?thesis by (simp add: readNodesStar.simps)
      qed
    qed
  qed
qed

lemma readNodes_discover:
  "childKeysOk h \<Longrightarrow> keys \<noteq> [] \<Longrightarrow>
   readNodes h 0 node keys 0 res = Inr (res @ discover h node keys)"
  using readNodes_discover_all(1) [of h 0 0 keys node res] by simp

lemma scopeRuns_loop:
  "scopeRuns h node keys runs \<Longrightarrow> childKeysOk h \<Longrightarrow> keys \<noteq> [] \<Longrightarrow>
   internalGetNodesLoop h 0 node keys res = Some (Inr (res @ concat runs))"
proof (induction arbitrary: res rule: scopeRuns.induct)
  case (lastScope node root keys)
  then show ?case
    using loop_top [of h 0 node keys res "res @ discover h node keys" root]
    by (simp add: readNodes_discover)
next
  case (fromRoot node root parentScope keys runs)
  have "internalGetNodesLoop h 0 node keys res
        = internalGetNodesLoop h 0 parentScope keys (res @ discover h node keys)"
    using fromRoot.hyps fromRoot.prems
    by (intro loop_root [where r = root]) (simp_all add: readNodes_discover)
  then show ?case using fromRoot.IH [OF fromRoot.prems] by simp
next
  case (fromInterior node root parentScope nodePath keys runs)
  have "internalGetNodesLoop h 0 node keys res
        = internalGetNodesLoop h 0 parentScope (nodePath @ keys) (res @ discover h node keys)"
    using fromInterior.hyps fromInterior.prems
    by (intro loop_interior [where r = root]) (simp_all add: readNodes_discover)
  moreover have "nodePath @ keys \<noteq> []" using fromInterior.prems by simp
  ultimately show ?case using fromInterior.IH [OF fromInterior.prems(1)] by simp
qed

lemma langTree_heap:
  "heap langTree =
     (heap store0)
       (0 := \<lparr>Key = [], Value = None, Children = [''de'' \<mapsto> 1], ChildKeys = [''de''],
              Parent = None, Flags = IsRoot\<rparr>,
        1 := \<lparr>Key = ''de'', Value = None, Children = [''2'' \<mapsto> 2, ''1'' \<mapsto> 3],
              ChildKeys = [''2'', ''1''], Parent = Some 0, Flags = NoFlags\<rparr>,
        2 := \<lparr>Key = ''2'', Value = Some (VString ''zwei''), Children = Map.empty,
              ChildKeys = [], Parent = Some 1, Flags = NoFlags\<rparr>,
        3 := \<lparr>Key = ''1'', Value = Some (VString ''eins''), Children = Map.empty,
              ChildKeys = [], Parent = Some 1, Flags = NoFlags\<rparr>,
        4 := \<lparr>Key = [], Value = None, Children = [''fr'' \<mapsto> 5], ChildKeys = [''fr''],
              Parent = Some 0, Flags = IsRoot\<rparr>,
        5 := \<lparr>Key = ''fr'', Value = None, Children = [''1'' \<mapsto> 6], ChildKeys = [''1''],
              Parent = Some 4, Flags = NoFlags\<rparr>,
        6 := \<lparr>Key = ''1'', Value = Some (VString ''un''), Children = Map.empty,
              ChildKeys = [], Parent = Some 5, Flags = NoFlags\<rparr>,
        7 := \<lparr>Key = [], Value = None, Children = [''en'' \<mapsto> 8], ChildKeys = [''en''],
              Parent = Some 4, Flags = IsRoot\<rparr>,
        8 := \<lparr>Key = ''en'', Value = None, Children = [''1'' \<mapsto> 9, ''2'' \<mapsto> 10],
              ChildKeys = [''1'', ''2''], Parent = Some 7, Flags = NoFlags\<rparr>,
        9 := \<lparr>Key = ''1'', Value = Some (VString ''one''), Children = Map.empty,
              ChildKeys = [], Parent = Some 8, Flags = NoFlags\<rparr>,
        10 := \<lparr>Key = ''2'', Value = Some (VString ''two''), Children = Map.empty,
               ChildKeys = [], Parent = Some 8, Flags = NoFlags\<rparr>)"
  by (simp add: langTree_def build_defs eval_rules fun_eq_iff)

lemma langTree_ok: "childKeysOk (heap langTree)"
  by (simp add: childKeysOk_def langTree_heap store0_def emptyNode_def)

lemma langTree_runs:
  "scopeRuns (heap langTree) 7 [''*'', ''*'']
     [[Some 9, Some 10], [Some 6], [Some 2, Some 3]]"
proof -
  let ?h = "heap langTree"
  let ?k = "[''*'', ''*'']"
  have d0: "discover ?h 0 ?k = [Some 2, Some 3]" by (simp add: langTree_heap)
  have d4: "discover ?h 4 ?k = [Some 6]" by (simp add: langTree_heap)
  have d7: "discover ?h 7 ?k = [Some 9, Some 10]" by (simp add: langTree_heap)
  have "scopeRuns ?h 0 ?k [discover ?h 0 ?k]"
    by (rule lastScope [where root = 0]) (simp_all add: langTree_heap eval_rules)
  then have "scopeRuns ?h 4 ?k [discover ?h 4 ?k, discover ?h 0 ?k]"
    by (rule fromRoot [where root = 4, rotated 3])
       (simp_all add: langTree_heap eval_rules IsRoot_def)
  then have "scopeRuns ?h 7 ?k [discover ?h 7 ?k, discover ?h 4 ?k, discover ?h 0 ?k]"
    by (rule fromRoot [where root = 7, rotated 3])
       (simp_all add: langTree_heap eval_rules IsRoot_def)
  then show ?thesis by (simp only: d0 d4 d7)
qed

lemma readNodes_subseq_all:
  "(childKeysOk h \<longrightarrow> index < length spec \<longrightarrow>
      (\<forall>res1. readNodes h limit node spec index result = Inr res1 \<longrightarrow>
         (\<exists>ys. res1 = result @ ys \<and> subseq ys (discover h node (drop index spec)))))"
  "(childKeysOk h \<longrightarrow> index < length spec \<longrightarrow> set keys \<subseteq> set (ChildKeys (h node)) \<longrightarrow>
      (\<forall>res1. readNodesEach h limit node spec index keys result = Inr res1 \<longrightarrow>
         (\<exists>ys. res1 = result @ ys \<and>
            subseq ys (concat (map (\<lambda>key. case Children (h node) key of
                                 None \<Rightarrow> []
                               | Some child \<Rightarrow>
                                   if drop (Suc index) spec = [] then [Some child]
                                   else discover h child (drop (Suc index) spec)) keys)))))"
  "(childKeysOk h \<longrightarrow> index < length spec \<longrightarrow>
      (\<forall>res1. readNodesStar h limit node spec index result = Inr res1 \<longrightarrow>
         (\<exists>ys. res1 = result @ ys \<and>
            subseq ys (case Children (h node) ''*'' of
                None \<Rightarrow> []
              | Some child \<Rightarrow>
                  if drop (Suc index) spec = [] then [Some child]
                  else discover h child (drop (Suc index) spec)))))"
proof (induction h limit node spec index result and h limit node spec index keys result
         and h limit node spec index result
       rule: readNodes_readNodesEach_readNodesStar.induct)
  case (1 h limit node spec index result)
  show ?case
  proof (intro impI allI)
    fix res1
    assume ok: "childKeysOk h" and i: "index < length spec"
      and run: "readNodes h limit node spec index result = Inr res1"
    let ?star = "case Children (h node) ''*'' of
                None \<Rightarrow> []
              | Some child \<Rightarrow>
                  if drop (Suc index) spec = [] then [Some child]
                  else discover h child (drop (Suc index) spec)"
    have last: "drop (Suc index) spec = [] \<longleftrightarrow> index + 1 = length spec" using i by auto
    have nle: "\<not> length spec \<le> index" using i by simp
    show "\<exists>ys. res1 = result @ ys \<and> subseq ys (discover h node (drop index spec))"
    proof (cases "spec ! index = ''*''")
      case True
      from run True nle have "readNodesEach h limit node spec index (ChildKeys (h node)) result = Inr res1"
        by (simp add: readNodes.simps)
      with 1(1) [OF nle True] ok i True show ?thesis
        by (simp add: drop_index)
    next
      case False
      show ?thesis
      proof (cases "Children (h node) (spec ! index)")
        case None
        from run False None nle have "readNodesStar h limit node spec index result = Inr res1"
          by (simp add: readNodes.simps)
        with 1(2) [OF nle False None] ok i False None show ?thesis
          by (simp add: drop_index)
      next
        case (Some c)
        show ?thesis
        proof (cases "index + 1 = length spec")
          case True
          then have d: "drop (Suc index) spec = []" using last by simp
          have disc: "discover h node (drop index spec) = Some c # ?star"
            using i False Some d by (simp add: drop_index cong: option.case_cong)
          show ?thesis
          proof (cases "limit > 0 \<and> int (length (result @ [Some c])) \<ge> limit")
            case lim: True
            with run False Some True nle have "res1 = result @ [Some c]"
              by (auto simp: readNodes.simps split: if_splits)
            then show ?thesis by (simp add: disc)
          next
            case nolim: False
            with run False Some True nle
            have "readNodesStar h limit node spec index (result @ [Some c]) = Inr res1"
              by (auto simp: readNodes.simps split: if_splits)
            with 1(3) [OF nle False Some True nolim] ok i
            obtain ys where "res1 = (result @ [Some c]) @ ys" "subseq ys ?star" by blast
            then show ?thesis by (simp add: disc)
          qed
        next
          case ne: False
          then have d: "drop (Suc index) spec \<noteq> []" using last by simp
          have i1: "index + 1 < length spec" using ne i by simp
          have disc: "discover h node (drop index spec)
                      = discover h c (drop (Suc index) spec) @ ?star"
            using i False Some d by (simp add: drop_index cong: option.case_cong)
          from run False Some ne nle obtain r1 where
            r1: "readNodes h limit c spec (index + 1) result = Inr r1"
            and st: "readNodesStar h limit node spec index r1 = Inr res1"
            by (simp add: readNodes.simps split: sum.splits)
          from 1(4) [OF nle False Some ne] ok i1 r1
          obtain ys1 where y1: "r1 = result @ ys1" "subseq ys1 (discover h c (drop (Suc index) spec))"
            by auto
          from 1(5) [OF nle False Some ne r1] ok i st
          obtain ys2 where y2: "res1 = r1 @ ys2" "subseq ys2 ?star" by blast
          from y1 y2 have "res1 = result @ (ys1 @ ys2)" by simp
          moreover from y1 y2 have "subseq (ys1 @ ys2) (discover h c (drop (Suc index) spec) @ ?star)"
            by (intro list_emb_append_mono)
          ultimately show ?thesis by (metis disc)
        qed
      qed
    qed
  qed
next
  case (2 h limit node spec index result)
  then show ?case by simp
next
  case (3 h limit node spec index key keys result)
  show ?case
  proof (intro impI allI)
    fix res1
    assume ok: "childKeysOk h" and i: "index < length spec"
      and sub: "set (key # keys) \<subseteq> set (ChildKeys (h node))"
      and run: "readNodesEach h limit node spec index (key # keys) result = Inr res1"
    let ?F = "\<lambda>key. case Children (h node) key of
                                 None \<Rightarrow> []
                               | Some child \<Rightarrow>
                                   if drop (Suc index) spec = [] then [Some child]
                                   else discover h child (drop (Suc index) spec)"
    have last: "drop (Suc index) spec = [] \<longleftrightarrow> index + 1 = length spec" using i by auto
    from ok sub have "Children (h node) key \<noteq> None"
      unfolding childKeysOk_def by simp
    then obtain c where c: "Children (h node) key = Some c" by blast
    from sub have sub': "set keys \<subseteq> set (ChildKeys (h node))" by simp
    show "\<exists>ys. res1 = result @ ys \<and> subseq ys (concat (map ?F (key # keys)))"
    proof (cases "index + 1 = length spec")
      case True
      then have d: "drop (Suc index) spec = []" using last by simp
      have Fk: "?F key = [Some c]" using c d by simp
      show ?thesis
      proof (cases "limit > 0 \<and> int (length (result @ [Children (h node) key])) \<ge> limit")
        case lim: True
        with run True c have "res1 = result @ [Some c]" by (auto split: if_splits)
        then show ?thesis using c d by simp
      next
        case nolim: False
        with run True
        have "readNodesEach h limit node spec index keys (result @ [Children (h node) key]) = Inr res1"
          by (auto split: if_splits)
        with 3(1) [OF True nolim] ok i sub'
        obtain ys where "res1 = (result @ [Children (h node) key]) @ ys"
          "subseq ys (concat (map ?F keys))" by blast
        then show ?thesis using c d by simp
      qed
    next
      case ne: False
      then have d: "drop (Suc index) spec \<noteq> []" using last by simp
      have i1: "index + 1 < length spec" "\<not> length spec \<le> index + 1" using ne i by simp_all
      have Fk: "?F key = discover h c (drop (Suc index) spec)" using c d by simp
      from run ne i1 c obtain r1 where
        r1: "readNodes h limit c spec (index + 1) result = Inr r1"
        and st: "readNodesEach h limit node spec index keys r1 = Inr res1"
        by (simp split: sum.splits)
      from 3(2) [OF ne i1(2) c] ok i1 r1
      obtain ys1 where y1: "r1 = result @ ys1" "subseq ys1 (discover h c (drop (Suc index) spec))"
        by auto
      from 3(3) [OF ne i1(2) c r1] ok i sub' st
      obtain ys2 where y2: "res1 = r1 @ ys2" "subseq ys2 (concat (map ?F keys))" by blast
      from y1 y2 have "res1 = result @ (ys1 @ ys2)" by simp
      moreover from y1 y2
      have "subseq (ys1 @ ys2) (discover h c (drop (Suc index) spec) @ concat (map ?F keys))"
        by (intro list_emb_append_mono)
      ultimately show ?thesis using c d by simp
    qed
  qed
next
  case (4 h limit node spec index result)
  show ?case
  proof (intro impI allI)
    fix res1
    assume ok: "childKeysOk h" and i: "index < length spec"
      and run: "readNodesStar h limit node spec index result = Inr res1"
    have last: "drop (Suc index) spec = [] \<longleftrightarrow> index + 1 = length spec" using i by auto
    show "\<exists>ys. res1 = result @ ys \<and>
            subseq ys (case Children (h node) ''*'' of
                None \<Rightarrow> []
              | Some child \<Rightarrow>
                  if drop (Suc index) spec = [] then [Some child]
                  else discover h child (drop (Suc index) spec))"
    proof (cases "Children (h node) ''*''")
      case None
      with run show ?thesis by (simp add: readNodesStar.simps)
    next
      case (Some c)
      show ?thesis
      proof (cases "index + 1 = length spec")
        case True
        with run Some last show ?thesis by (auto simp: readNodesStar.simps)
      next
        case ne: False
        then have i1: "index + 1 < length spec" "\<not> length spec \<le> index + 1" using i by simp_all
        from run Some ne i1 have "readNodes h limit c spec (index + 1) result = Inr res1"
          by (simp add: readNodesStar.simps)
        with 4 [OF Some ne i1(2)] ok i1
        obtain ys where "res1 = result @ ys" "subseq ys (discover h c (drop (Suc index) spec))"
          by auto
        with Some ne last show ?thesis by simp
      qed
    qed
  qed
qed

lemma readNodes_extends:
  "childKeysOk h \<Longrightarrow> keys \<noteq> [] \<Longrightarrow> readNodes h limit node keys 0 res = Inr res1 \<Longrightarrow>
   \<exists>ys. res1 = res @ ys \<and> subseq ys (discover h node keys)"
  using readNodes_subseq_all(1) [of h 0 keys limit node res] by simp

lemma loop_extends:
  assumes "internalGetNodesLoop h limit node keys res = Some y"
  shows "childKeysOk h \<longrightarrow> keys \<noteq> [] \<longrightarrow> (\<forall>out. y = Inr out \<longrightarrow> prefix res out)"
proof (rule internalGetNodesLoop.raw_induct
         [where P = "\<lambda>h limit node keys res y.
                       childKeysOk h \<longrightarrow> keys \<noteq> [] \<longrightarrow> (\<forall>out. y = Inr out \<longrightarrow> prefix res out)",
          OF _ assms])
  fix f :: "heap \<Rightarrow> int \<Rightarrow> addr \<Rightarrow> string list \<Rightarrow> ptr list \<Rightarrow> (error + ptr list) option"
  fix h limit node keys res y
  assume IH: "\<And>h limit node keys res y. f h limit node keys res = Some y \<Longrightarrow>
                childKeysOk h \<longrightarrow> keys \<noteq> [] \<longrightarrow> (\<forall>out. y = Inr out \<longrightarrow> prefix res out)"
    and body: "(case readNodes h limit node keys 0 res of
        Inl e \<Rightarrow> Some (Inl e)
      | Inr result1 \<Rightarrow>
          if limit > 0 \<and> int (length result1) \<ge> limit then Some (Inr result1)
          else (case GetRoot h (Some node) of
                  None \<Rightarrow> None
                | Some None \<Rightarrow> Some (Inl NilDeref)
                | Some (Some root) \<Rightarrow>
                    (case Parent (h root) of
                       None \<Rightarrow> Some (Inr result1)
                     | Some parentScope \<Rightarrow>
                         if Flags (h node) AND IsRoot = 0
                         then (case Path h (Some node) of
                                 None \<Rightarrow> None
                               | Some (Inl e) \<Rightarrow> Some (Inl e)
                               | Some (Inr nodePath) \<Rightarrow>
                                   f h limit parentScope (nodePath @ keys) result1)
                         else f h limit parentScope keys result1))) = Some y"
  show "childKeysOk h \<longrightarrow> keys \<noteq> [] \<longrightarrow> (\<forall>out. y = Inr out \<longrightarrow> prefix res out)"
  proof (intro impI allI)
    fix out
    assume ok: "childKeysOk h" and k: "keys \<noteq> []" and y: "y = Inr out"
    from body y obtain res1 where r: "readNodes h limit node keys 0 res = Inr res1"
      by (cases "readNodes h limit node keys 0 res") auto
    from readNodes_extends [OF ok k r] have p: "prefix res res1" by auto
    show "prefix res out"
    proof (cases "0 < limit \<and> limit \<le> int (length res1)")
      case True
      with body r y have "out = res1" by simp
      with p show ?thesis by simp
    next
      case False
      with body r y have
        "out = res1 \<or> (\<exists>ps. f h limit ps keys res1 = Some (Inr out))
         \<or> (\<exists>ps pre. f h limit ps (pre @ keys) res1 = Some (Inr out))"
        by (auto split: option.splits if_splits sum.splits)
      then have
        "out = res1 \<or> (\<exists>ps pre. f h limit ps (pre @ keys) res1 = Some (Inr out))"
        by (metis append_Nil)
      then show ?thesis
      proof
        assume "out = res1"
        with p show ?thesis by auto
      next
        assume "\<exists>ps pre. f h limit ps (pre @ keys) res1 = Some (Inr out)"
        then obtain ps pre where "f h limit ps (pre @ keys) res1 = Some (Inr out)"
          by blast
        moreover have "pre @ keys \<noteq> []" using k by simp
        ultimately have "prefix res1 out" using IH ok by blast
        with p show ?thesis by (rule prefix_order.trans)
      qed
    qed
  qed
qed

lemma loop_nearest_first:
  assumes "internalGetNodesLoop h limit node keys res = Some (Inr out)"
    and ok: "childKeysOk h" and k: "keys \<noteq> []"
  shows "\<exists>res1. readNodes h limit node keys 0 res = Inr res1 \<and> prefix res1 out"
proof -
  from assms(1) obtain res1 where r: "readNodes h limit node keys 0 res = Inr res1"
    by (subst (asm) internalGetNodesLoop.simps)
       (cases "readNodes h limit node keys 0 res", auto)
  have "prefix res1 out"
  proof (cases "0 < limit \<and> limit \<le> int (length res1)")
    case True
    with assms(1) r show ?thesis by (subst (asm) internalGetNodesLoop.simps) simp
  next
    case False
    with assms(1) r have
      "out = res1 \<or> (\<exists>ps. internalGetNodesLoop h limit ps keys res1 = Some (Inr out))
       \<or> (\<exists>ps pre. internalGetNodesLoop h limit ps (pre @ keys) res1 = Some (Inr out))"
      by (subst (asm) internalGetNodesLoop.simps)
         (auto split: option.splits if_splits sum.splits)
    then have
      "out = res1 \<or> (\<exists>ps pre. internalGetNodesLoop h limit ps (pre @ keys) res1
                                = Some (Inr out))"
      by (metis append_Nil)
    then show ?thesis
    proof
      assume "out = res1" then show ?thesis by simp
    next
      assume "\<exists>ps pre. internalGetNodesLoop h limit ps (pre @ keys) res1 = Some (Inr out)"
      then obtain ps pre where
        "internalGetNodesLoop h limit ps (pre @ keys) res1 = Some (Inr out)" by blast
      moreover have "pre @ keys \<noteq> []" using k by simp
      ultimately show ?thesis
        using loop_extends [of h limit ps "pre @ keys" res1 "Inr out"] ok by blast
    qed
  qed
  with r show ?thesis by blast
qed

text \<open>
  C5. The order of a resolution. Under the child-order invariant (\<^verbatim>\<open>ChildKeys\<close> names only
  keys of \<^verbatim>\<open>Children\<close>) and for a non-empty spec: an unbounded resolution returns the
  discovery-order matches of the nearest scope, then those of each farther scope, one
  contiguous run per scope and nothing re-sorted; a single pass, at any limit, extends
  the results by matches in discovery order (the exact child before the child keyed
  \<^verbatim>\<open>"*"\<close>, wildcard children in \<^verbatim>\<open>ChildKeys\<close> order); and whatever a resolution returns
  starts with the whole first pass of the node it was started from.
\<close>

theorem resolution_order:
  "(childKeysOk h \<and> keys \<noteq> [] \<and> scopeRuns h node keys runs \<longrightarrow>
      internalGetNodes h (Some node) keys 0 = Some (Inr (concat runs)))
   \<and> (childKeysOk h \<and> keys \<noteq> [] \<and> readNodes h limit node keys 0 res = Inr res1 \<longrightarrow>
      (\<exists>found. res1 = res @ found \<and> subseq found (discover h node keys)))
   \<and> (childKeysOk h \<and> keys \<noteq> [] \<and> internalGetNodesLoop h limit node keys res = Some (Inr out)
      \<longrightarrow> (\<exists>res1. readNodes h limit node keys 0 res = Inr res1 \<and> prefix res1 out))"
proof (intro conjI impI)
  assume a: "childKeysOk h \<and> keys \<noteq> [] \<and> scopeRuns h node keys runs"
  then have "internalGetNodesLoop h 0 node keys [] = Some (Inr ([] @ concat runs))"
    by (intro scopeRuns_loop) simp_all
  with a show "internalGetNodes h (Some node) keys 0 = Some (Inr (concat runs))"
    by (simp add: internalGetNodes_def)
next
  assume "childKeysOk h \<and> keys \<noteq> [] \<and> readNodes h limit node keys 0 res = Inr res1"
  then show "\<exists>found. res1 = res @ found \<and> subseq found (discover h node keys)"
    by (intro readNodes_extends [where limit = limit]) simp_all
next
  assume "childKeysOk h \<and> keys \<noteq> []
          \<and> internalGetNodesLoop h limit node keys res = Some (Inr out)"
  then show "\<exists>res1. readNodes h limit node keys 0 res = Inr res1 \<and> prefix res1 out"
    by (intro loop_nearest_first) simp_all
qed

theorem resolution_order_witness:
  "childKeysOk (heap langTree)
   \<and> scopeRuns (heap langTree) 7 [''*'', ''*''] [[Some 9, Some 10], [Some 6], [Some 2, Some 3]]
   \<and> internalGetNodes (heap langTree) (Some 7) [''*'', ''*''] 0
     = Some (Inr [Some 9, Some 10, Some 6, Some 2, Some 3])
   \<and> readNodes (heap langTree) 1 0 [''*'', ''*''] 0 [] = Inr [Some 2]
   \<and> subseq [Some 2] (discover (heap langTree) 0 [''*'', ''*''])
   \<and> internalGetNodesLoop (heap langTree) 3 7 [''*'', ''*''] [] = Some (Inr [Some 9, Some 10, Some 6])
   \<and> readNodes (heap langTree) 3 7 [''*'', ''*''] 0 [] = Inr [Some 9, Some 10]
   \<and> prefix [Some 9, Some 10] [Some 9, Some 10, Some 6]"
proof -
  let ?h = "heap langTree"
  let ?k = "[''*'', ''*'']"
  have p1: "readNodes ?h 1 0 ?k 0 [] = Inr [Some 2]"
    by (simp add: langTree_heap eval_rules)
  have p3: "readNodes ?h 3 7 ?k 0 [] = Inr [Some 9, Some 10]"
    by (simp add: langTree_heap eval_rules)
  have q3: "readNodes ?h 3 4 ?k 0 [Some 9, Some 10] = Inr [Some 9, Some 10, Some 6]"
    by (simp add: langTree_heap eval_rules)
  have "internalGetNodesLoop ?h 3 4 ?k [Some 9, Some 10] = Some (Inr [Some 9, Some 10, Some 6])"
    by (rule loop_limit [OF q3]) simp_all
  moreover have "internalGetNodesLoop ?h 3 7 ?k []
                 = internalGetNodesLoop ?h 3 4 ?k [Some 9, Some 10]"
    by (rule loop_root [OF p3, where r = 7]) (simp_all add: langTree_heap eval_rules IsRoot_def)
  ultimately have l3: "internalGetNodesLoop ?h 3 7 ?k [] = Some (Inr [Some 9, Some 10, Some 6])"
    by simp
  show ?thesis
    using langTree_ok langTree_runs p1 p3 l3
      resolution_order [where h = ?h and keys = ?k and node = 7
        and runs = "[[Some 9, Some 10], [Some 6], [Some 2, Some 3]]"]
      resolution_order [where h = ?h and keys = ?k and node = 0 and limit = 1
        and res = "[]" and ?res1.0 = "[Some 2]"]
      resolution_order [where h = ?h and keys = ?k and node = 7 and limit = 3
        and res = "[]" and out = "[Some 9, Some 10, Some 6]"]
    by simp
qed

section \<open>Scope inheritance and re-anchoring\<close>

text \<open>
  The first match. At any limit a pass returns, and what it appends starts with the
  first node of the discovery order (and is empty when there is none): the limit is
  looked at only after an append.
\<close>

lemma take1_append:
  "take (Suc 0) a = take (Suc 0) b \<Longrightarrow> take (Suc 0) a' = take (Suc 0) b' \<Longrightarrow>
   take (Suc 0) (a @ a') = take (Suc 0) (b @ b')"
  by (cases a; cases b) simp_all

lemma readNodes_first_all:
  "(childKeysOk h \<longrightarrow> index < length spec \<longrightarrow>
      (\<exists>ys. readNodes h limit node spec index result = Inr (result @ ys)
            \<and> take (Suc 0) ys = take (Suc 0) (discover h node (drop index spec))))"
  "(childKeysOk h \<longrightarrow> index < length spec \<longrightarrow> set keys \<subseteq> set (ChildKeys (h node)) \<longrightarrow>
      (\<exists>ys. readNodesEach h limit node spec index keys result = Inr (result @ ys)
            \<and> take (Suc 0) ys
              = take (Suc 0) (concat (map (\<lambda>key. case Children (h node) key of
                                 None \<Rightarrow> []
                               | Some child \<Rightarrow>
                                   if drop (Suc index) spec = [] then [Some child]
                                   else discover h child (drop (Suc index) spec)) keys))))"
  "(childKeysOk h \<longrightarrow> index < length spec \<longrightarrow>
      (\<exists>ys. readNodesStar h limit node spec index result = Inr (result @ ys)
            \<and> take (Suc 0) ys
              = take (Suc 0) (case Children (h node) ''*'' of
                  None \<Rightarrow> []
                | Some child \<Rightarrow>
                    if drop (Suc index) spec = [] then [Some child]
                    else discover h child (drop (Suc index) spec))))"
proof (induction h limit node spec index result and h limit node spec index keys result
         and h limit node spec index result
       rule: readNodes_readNodesEach_readNodesStar.induct)
  case (1 h limit node spec index result)
  show ?case
  proof (intro impI)
    assume ok: "childKeysOk h" and i: "index < length spec"
    let ?F = "\<lambda>key. case Children (h node) key of
                                 None \<Rightarrow> []
                               | Some child \<Rightarrow>
                                   if drop (Suc index) spec = [] then [Some child]
                                   else discover h child (drop (Suc index) spec)"
    let ?star = "case Children (h node) ''*'' of
                None \<Rightarrow> []
              | Some child \<Rightarrow>
                  if drop (Suc index) spec = [] then [Some child]
                  else discover h child (drop (Suc index) spec)"
    have last: "drop (Suc index) spec = [] \<longleftrightarrow> index + 1 = length spec" using i by auto
    have nle: "\<not> length spec \<le> index" using i by simp
    show "\<exists>ys. readNodes h limit node spec index result = Inr (result @ ys)
            \<and> take (Suc 0) ys = take (Suc 0) (discover h node (drop index spec))"
    proof (cases "spec ! index = ''*''")
      case True
      from 1(1) [OF nle True] ok i obtain ys where
        "readNodesEach h limit node spec index (ChildKeys (h node)) result = Inr (result @ ys)"
        "take (Suc 0) ys = take (Suc 0) (concat (map ?F (ChildKeys (h node))))"
        by auto
      moreover have "readNodes h limit node spec index result
            = readNodesEach h limit node spec index (ChildKeys (h node)) result"
        using True nle by (subst readNodes.simps) simp
      moreover have "discover h node (drop index spec) = concat (map ?F (ChildKeys (h node)))"
        using i True by (simp add: drop_index)
      ultimately show ?thesis by auto
    next
      case False
      show ?thesis
      proof (cases "Children (h node) (spec ! index)")
        case None
        from 1(2) [OF nle False None] ok i obtain ys where
          "readNodesStar h limit node spec index result = Inr (result @ ys)"
          "take (Suc 0) ys = take (Suc 0) ?star"
          by auto
        moreover have "readNodes h limit node spec index result
              = readNodesStar h limit node spec index result"
          using False None nle by (subst readNodes.simps) simp
        moreover have "discover h node (drop index spec) = ?star"
          using i False None by (simp add: drop_index cong: option.case_cong)
        ultimately show ?thesis by auto
      next
        case (Some c)
        show ?thesis
        proof (cases "index + 1 = length spec")
          case True
          then have d: "drop (Suc index) spec = []" using last by simp
          have disc: "discover h node (drop index spec) = Some c # ?star"
            using i False Some d by (simp add: drop_index cong: option.case_cong)
          show ?thesis
          proof (cases "limit > 0 \<and> int (length (result @ [Some c])) \<ge> limit")
            case lim: True
            have "readNodes h limit node spec index result = Inr (result @ [Some c])"
              using False Some True nle lim by (subst readNodes.simps) simp
            then show ?thesis by (simp add: disc)
          next
            case nolim: False
            from 1(3) [OF nle False Some True nolim] ok i obtain ys where
              "readNodesStar h limit node spec index (result @ [Some c])
               = Inr ((result @ [Some c]) @ ys)"
              by auto
            moreover have "readNodes h limit node spec index result
                  = readNodesStar h limit node spec index (result @ [Some c])"
              using False Some True nle nolim by (subst readNodes.simps) auto
            ultimately have "readNodes h limit node spec index result
                             = Inr (result @ (Some c # ys))" by simp
            then show ?thesis unfolding disc by (intro exI [of _ "Some c # ys"]) simp
          qed
        next
          case ne: False
          then have d: "drop (Suc index) spec \<noteq> []" using last by simp
          have i1: "index + 1 < length spec" using ne i by simp
          have disc: "discover h node (drop index spec)
                      = discover h c (drop (Suc index) spec) @ ?star"
            using i False Some d by (simp add: drop_index cong: option.case_cong)
          from 1(4) [OF nle False Some ne] ok i1 obtain ys1 where
            r1: "readNodes h limit c spec (index + 1) result = Inr (result @ ys1)"
            and t1: "take (Suc 0) ys1 = take (Suc 0) (discover h c (drop (Suc index) spec))"
            by auto
          from 1(5) [OF nle False Some ne r1] ok i obtain ys2 where
            r2: "readNodesStar h limit node spec index (result @ ys1)
                 = Inr ((result @ ys1) @ ys2)"
            and t2: "take (Suc 0) ys2 = take (Suc 0) ?star"
            by auto
          have "readNodes h limit node spec index result = Inr (result @ (ys1 @ ys2))"
            using False Some ne nle r1 r2 by (subst readNodes.simps) simp
          moreover have "take (Suc 0) (ys1 @ ys2)
                         = take (Suc 0) (discover h c (drop (Suc index) spec) @ ?star)"
            using t1 t2 by (rule take1_append)
          ultimately show ?thesis unfolding disc by blast
        qed
      qed
    qed
  qed
next
  case (2 h limit node spec index result)
  then show ?case by simp
next
  case (3 h limit node spec index key keys result)
  show ?case
  proof (intro impI)
    assume ok: "childKeysOk h" and i: "index < length spec"
      and sub: "set (key # keys) \<subseteq> set (ChildKeys (h node))"
    let ?F = "\<lambda>key. case Children (h node) key of
                                 None \<Rightarrow> []
                               | Some child \<Rightarrow>
                                   if drop (Suc index) spec = [] then [Some child]
                                   else discover h child (drop (Suc index) spec)"
    have last: "drop (Suc index) spec = [] \<longleftrightarrow> index + 1 = length spec" using i by auto
    from ok sub have "Children (h node) key \<noteq> None"
      unfolding childKeysOk_def by simp
    then obtain c where c: "Children (h node) key = Some c" by blast
    from sub have sub': "set keys \<subseteq> set (ChildKeys (h node))" by simp
    show "\<exists>ys. readNodesEach h limit node spec index (key # keys) result = Inr (result @ ys)
            \<and> take (Suc 0) ys = take (Suc 0) (concat (map ?F (key # keys)))"
    proof (cases "index + 1 = length spec")
      case True
      then have d: "drop (Suc index) spec = []" using last by simp
      have Fk: "?F key = [Some c]" using c d by simp
      show ?thesis
      proof (cases "limit > 0 \<and> int (length (result @ [Children (h node) key])) \<ge> limit")
        case lim: True
        with True c have "readNodesEach h limit node spec index (key # keys) result
                          = Inr (result @ [Some c])" by simp
        then show ?thesis using c d by simp
      next
        case nolim: False
        from 3(1) [OF True nolim] ok i sub' obtain ys where
          "readNodesEach h limit node spec index keys (result @ [Children (h node) key])
           = Inr ((result @ [Children (h node) key]) @ ys)"
          by blast
        with True nolim c have "readNodesEach h limit node spec index (key # keys) result
                                = Inr (result @ (Some c # ys))" by auto
        then show ?thesis using c d by (intro exI [of _ "Some c # ys"]) simp
      qed
    next
      case ne: False
      then have d: "drop (Suc index) spec \<noteq> []" using last by simp
      have i1: "index + 1 < length spec" "\<not> length spec \<le> index + 1" using ne i by simp_all
      have Fk: "?F key = discover h c (drop (Suc index) spec)" using c d by simp
      from 3(2) [OF ne i1(2) c] ok i1 obtain ys1 where
        r1: "readNodes h limit c spec (index + 1) result = Inr (result @ ys1)"
        and t1: "take (Suc 0) ys1 = take (Suc 0) (discover h c (drop (Suc index) spec))"
        by auto
      from 3(3) [OF ne i1(2) c r1] ok i sub' obtain ys2 where
        r2: "readNodesEach h limit node spec index keys (result @ ys1)
             = Inr ((result @ ys1) @ ys2)"
        and t2: "take (Suc 0) ys2 = take (Suc 0) (concat (map ?F keys))"
        by blast
      have "readNodesEach h limit node spec index (key # keys) result
            = Inr (result @ (ys1 @ ys2))"
        using ne i1 c r1 r2 by simp
      moreover have "take (Suc 0) (ys1 @ ys2)
            = take (Suc 0) (discover h c (drop (Suc index) spec) @ concat (map ?F keys))"
        using t1 t2 by (rule take1_append)
      ultimately show ?thesis using Fk by (intro exI [of _ "ys1 @ ys2"]) simp
    qed
  qed
next
  case (4 h limit node spec index result)
  show ?case
  proof (intro impI)
    assume ok: "childKeysOk h" and i: "index < length spec"
    have last: "drop (Suc index) spec = [] \<longleftrightarrow> index + 1 = length spec" using i by auto
    show "\<exists>ys. readNodesStar h limit node spec index result = Inr (result @ ys)
            \<and> take (Suc 0) ys
              = take (Suc 0) (case Children (h node) ''*'' of
                  None \<Rightarrow> []
                | Some child \<Rightarrow>
                    if drop (Suc index) spec = [] then [Some child]
                    else discover h child (drop (Suc index) spec))"
    proof (cases "Children (h node) ''*''")
      case None
      then show ?thesis by (simp add: readNodesStar.simps)
    next
      case (Some c)
      show ?thesis
      proof (cases "index + 1 = length spec")
        case True
        with Some last show ?thesis by (simp add: readNodesStar.simps)
      next
        case ne: False
        then have i1: "index + 1 < length spec" "\<not> length spec \<le> index + 1" using i by simp_all
        from 4 [OF Some ne i1(2)] ok i1 obtain ys where
          "readNodes h limit c spec (index + 1) result = Inr (result @ ys)"
          "take (Suc 0) ys = take (Suc 0) (discover h c (drop (Suc index) spec))"
          by auto
        with Some ne i1 last show ?thesis by (simp add: readNodesStar.simps)
      qed
    qed
  qed
qed

lemma readNodes_first:
  "childKeysOk h \<Longrightarrow> keys \<noteq> [] \<Longrightarrow>
   \<exists>ys. readNodes h limit node keys 0 res = Inr (res @ ys)
        \<and> take (Suc 0) ys = take (Suc 0) (discover h node keys)"
  using readNodes_first_all(1) [of h 0 keys limit node res] by simp

lemma readNodes_none:
  "childKeysOk h \<Longrightarrow> keys \<noteq> [] \<Longrightarrow> discover h node keys = [] \<Longrightarrow>
   readNodes h limit node keys 0 res = Inr res"
  using readNodes_first [of h keys limit node res] by auto

lemma readNodes_some:
  "childKeysOk h \<Longrightarrow> keys \<noteq> [] \<Longrightarrow> discover h node keys = x # xs \<Longrightarrow>
   \<exists>ys. readNodes h limit node keys 0 res = Inr (res @ x # ys)"
proof -
  assume "childKeysOk h" "keys \<noteq> []" and d: "discover h node keys = x # xs"
  then obtain ys where r: "readNodes h limit node keys 0 res = Inr (res @ ys)"
    and t: "take (Suc 0) ys = take (Suc 0) (discover h node keys)"
    using readNodes_first [of h keys limit node res] by blast
  from t d obtain ys' where "ys = x # ys'" by (cases ys) auto
  with r show ?thesis by blast
qed

text \<open>A single-result lookup returns the first node of the discovery order of the
  node it starts from.\<close>

lemma internalTryGetNode_first:
  assumes ok: "childKeysOk h" and k: "keys \<noteq> []" and d: "discover h node keys = x # xs"
  shows "internalTryGetNode h (Some node) keys = Some (Inr (Inr x))"
proof -
  from readNodes_some [OF ok k d, of 1 "[]"] obtain ys where
    r: "readNodes h 1 node keys 0 [] = Inr (x # ys)" by auto
  have "internalGetNodesLoop h 1 node keys [] = Some (Inr (x # ys))"
    by (rule loop_limit [OF r]) simp_all
  with k show ?thesis by (simp add: internalTryGetNode_def internalGetNodes_def)
qed

text \<open>A key path that exists below a node and names no wildcard is the first match of its
  keys; a key path that breaks off below a node, on a way without children keyed
  \<^verbatim>\<open>"*"\<close>, has no match.\<close>

lemma walk_discover:
  "keys \<noteq> [] \<Longrightarrow> \<forall>key \<in> set keys. key \<noteq> ''*'' \<Longrightarrow> length (walk h a keys) = length keys + 1 \<Longrightarrow>
   \<exists>others. discover h a keys = Some (last (walk h a keys)) # others"
proof (induction keys arbitrary: a)
  case Nil
  then show ?case by simp
next
  case (Cons key keys)
  from Cons.prems(3) obtain c where c: "Children (h a) key = Some c"
    by (cases "Children (h a) key") auto
  with Cons.prems(3) have l: "length (walk h c keys) = length keys + 1" by simp
  show ?case
  proof (cases "keys = []")
    case True
    with c Cons.prems(2) show ?thesis by simp
  next
    case False
    with Cons.IH [of c] Cons.prems(2) l obtain others where
      "discover h c keys = Some (last (walk h c keys)) # others" by auto
    moreover have "walk h c keys \<noteq> []" by (rule walk_nonempty)
    ultimately show ?thesis using c False Cons.prems(2) by simp
  qed
qed

lemma walk_no_discover:
  "\<forall>key \<in> set keys. key \<noteq> ''*'' \<Longrightarrow> \<forall>b \<in> set (walk h a keys). Children (h b) ''*'' = None \<Longrightarrow>
   length (walk h a keys) \<le> length keys \<Longrightarrow> discover h a keys = []"
proof (induction keys arbitrary: a)
  case Nil
  then show ?case by simp
next
  case (Cons key keys)
  have star: "Children (h a) ''*'' = None" using Cons.prems(2) by simp
  show ?case
  proof (cases "Children (h a) key")
    case None
    with star Cons.prems(1) show ?thesis by simp
  next
    case (Some c)
    with Cons.prems have "\<forall>b \<in> set (walk h c keys). Children (h b) ''*'' = None"
      "length (walk h c keys) \<le> length keys" by simp_all
    with Cons.IH [of c] Cons.prems(1) have d: "discover h c keys = []" by simp
    have "keys \<noteq> []"
    proof
      assume "keys = []"
      with Some Cons.prems(3) show False by simp
    qed
    with Some star d Cons.prems(1) show ?thesis by simp
  qed
qed

text \<open>\<^verbatim>\<open>Path\<close> of a node below a scope root whose ancestors are keyless: the keys from
  the root down to the node, an empty key standing for itself.\<close>

lemma structPath_GetRoot: "structPath h root node ks \<Longrightarrow> GetRoot h (Some node) = Some (Some root)"
  by (induction rule: structPath.induct) (auto simp: GetRoot_stop GetRoot_step)

lemma structPath_DepthLoop:
  "structPath h root node ks \<Longrightarrow> DepthLoop h (Some node) d = Some (d + int (length ks))"
proof (induction arbitrary: d rule: structPath.induct)
  case (atRoot root)
  then show ?case by (simp add: DepthLoop_stop)
next
  case (below node p root ks)
  then show ?case by (simp add: DepthLoop_step)
qed

lemma keylessUp_PathLoop: "keylessUp h p \<Longrightarrow> PathLoop h p d path = Some (Inr path)"
proof (induction arbitrary: d rule: keylessUp.induct)
  case atNil
  then show ?case by (simp add: PathLoop_nil)
next
  case (up a)
  then show ?case by (simp add: PathLoop_empty_key)
qed

lemma structPath_PathLoop:
  "structPath h root node ks \<Longrightarrow> length ks \<le> length path \<Longrightarrow>
   take (length ks) path = replicate (length ks) [] \<Longrightarrow>
   PathLoop h (Some node) (int (length ks)) path
   = PathLoop h (Some root) 0 (ks @ drop (length ks) path)"
proof (induction arbitrary: path rule: structPath.induct)
  case (atRoot root)
  then show ?case by simp
next
  case (below node p root ks)
  let ?k = "Key (h node)"
  let ?n = "length ks"
  from below.prems have len: "?n < length path"
    and tk: "take (Suc ?n) path = replicate (Suc ?n) []" by simp_all
  have "take ?n path = take ?n (take (Suc ?n) path)" by (simp add: min_def)
  also have "\<dots> = take ?n (replicate (Suc ?n) [])" by (simp only: tk)
  also have "\<dots> = replicate ?n []" by (simp only: take_replicate) simp
  finally have tk': "take ?n path = replicate ?n []" .
  have "path ! ?n = take (Suc ?n) path ! ?n" by simp
  also have "\<dots> = replicate (Suc ?n) [] ! ?n" by (simp only: tk)
  also have "\<dots> = []" by (rule nth_replicate) simp
  finally have nth: "path ! ?n = []" .
  show ?case
  proof (cases "?k = []")
    case True
    have "PathLoop h (Some node) (int (length (ks @ [?k]))) path
          = PathLoop h (Some p) (int ?n) path"
      using True below.hyps(1) by (simp add: PathLoop_empty_key)
    also have "\<dots> = PathLoop h (Some root) 0 (ks @ drop ?n path)"
      using below.IH [of path] len tk' by simp
    also have "drop ?n path = ?k # drop (Suc ?n) path"
      using len nth True by (simp add: Cons_nth_drop_Suc [symmetric])
    finally show ?thesis by simp
  next
    case False
    have "PathLoop h (Some node) (int (length (ks @ [?k]))) path
          = PathLoop h (Some p) (int ?n) (path[?n := ?k])"
      using False len below.hyps(1) by (simp add: PathLoop_key)
    also have "\<dots> = PathLoop h (Some root) 0 (ks @ drop ?n (path[?n := ?k]))"
      using below.IH [of "path[?n := ?k]"] len tk' by simp
    also have "drop ?n (path[?n := ?k]) = ?k # drop (Suc ?n) path"
      using len by (simp add: drop_update_cancel Cons_nth_drop_Suc [symmetric] upd_conv_take_nth_drop)
    finally show ?thesis by simp
  qed
qed

lemma structPath_Path:
  assumes "structPath h root node ks" and "keylessUp h (Some root)"
  shows "Path h (Some node) = Some (Inr ks)"
proof -
  have "Depth h (Some node) = Some (int (length ks))"
    using structPath_DepthLoop [OF assms(1), of 0] by (simp add: Depth_def)
  moreover have "PathLoop h (Some node) (int (length ks)) (replicate (length ks) [])
                 = PathLoop h (Some root) 0 ks"
    using structPath_PathLoop [OF assms(1), of "replicate (length ks) []"] by simp
  ultimately show ?thesis
    using keylessUp_PathLoop [OF assms(2), of 0 ks] by (simp add: Path_def)
qed

lemma structPath_interior:
  "structPath h root node ks \<Longrightarrow> ks \<noteq> [] \<Longrightarrow> Flags (h node) AND IsRoot = 0"
  by (induction rule: structPath.induct) auto

text \<open>The continuation of a resolution into the scope above.\<close>

lemma internalGetNodes_root_none:
  assumes ok: "childKeysOk h" and k: "keys \<noteq> []"
    and fl: "Flags (h child) AND IsRoot \<noteq> 0" and pa: "Parent (h child) = Some parent"
    and d: "discover h child keys = []"
  shows "internalGetNodes h (Some child) keys limit = internalGetNodes h (Some parent) keys limit"
proof -
  have r: "readNodes h limit child keys 0 [] = Inr []" using ok k d by (rule readNodes_none)
  have "internalGetNodesLoop h limit child keys []
        = internalGetNodesLoop h limit parent keys []"
    using r fl pa by (intro loop_root [where r = child]) (simp_all add: GetRoot_stop)
  with k show ?thesis by (simp add: internalGetNodes_def)
qed

lemma internalGetNodes_interior:
  assumes ok: "childKeysOk h" and k: "keys \<noteq> []"
    and sp: "structPath h root node nodePath" and ne: "nodePath \<noteq> []"
    and ku: "keylessUp h (Some root)" and pa: "Parent (h root) = Some parentScope"
  shows "\<exists>found. readNodes h limit node keys 0 [] = Inr found
           \<and> internalGetNodes h (Some node) keys limit
             = (if limit > 0 \<and> int (length found) \<ge> limit then Some (Inr found)
                else internalGetNodesLoop h limit parentScope (nodePath @ keys) found)"
proof -
  from readNodes_first [OF ok k, of limit node "[]"] obtain found where
    r: "readNodes h limit node keys 0 [] = Inr found" by auto
  have p: "Path h (Some node) = Some (Inr nodePath)" using sp ku by (rule structPath_Path)
  have gr: "GetRoot h (Some node) = Some (Some root)" using sp by (rule structPath_GetRoot)
  have fl: "Flags (h node) AND IsRoot = 0" using sp ne by (rule structPath_interior)
  have "internalGetNodesLoop h limit node keys []
        = (if limit > 0 \<and> int (length found) \<ge> limit then Some (Inr found)
           else internalGetNodesLoop h limit parentScope (nodePath @ keys) found)"
  proof (cases "limit > 0 \<and> int (length found) \<ge> limit")
    case True
    then show ?thesis using loop_limit [OF r] by auto
  next
    case False
    then show ?thesis using loop_interior [OF r False gr pa fl p] by auto
  qed
  with r k show ?thesis by (simp add: internalGetNodes_def)
qed

lemma stackTree_heap:
  "heap stackTree =
     (heap store0)
       (0 := \<lparr>Key = [], Value = None, Children = [''a'' \<mapsto> 1], ChildKeys = [''a''],
              Parent = None, Flags = IsRoot\<rparr>,
        1 := \<lparr>Key = ''a'', Value = None, Children = [''b'' \<mapsto> 2], ChildKeys = [''b''],
              Parent = Some 0, Flags = NoFlags\<rparr>,
        2 := \<lparr>Key = ''b'', Value = None, Children = [''c'' \<mapsto> 3, ''d'' \<mapsto> 4],
              ChildKeys = [''c'', ''d''], Parent = Some 1, Flags = NoFlags\<rparr>,
        3 := \<lparr>Key = ''c'', Value = Some (VString ''old''), Children = Map.empty,
              ChildKeys = [], Parent = Some 2, Flags = NoFlags\<rparr>,
        4 := \<lparr>Key = ''d'', Value = Some (VString ''deep''), Children = Map.empty,
              ChildKeys = [], Parent = Some 2, Flags = NoFlags\<rparr>,
        5 := \<lparr>Key = [], Value = None, Children = [''a'' \<mapsto> 6], ChildKeys = [''a''],
              Parent = Some 0, Flags = IsRoot\<rparr>,
        6 := \<lparr>Key = ''a'', Value = None, Children = [''b'' \<mapsto> 7], ChildKeys = [''b''],
              Parent = Some 5, Flags = NoFlags\<rparr>,
        7 := \<lparr>Key = ''b'', Value = None, Children = [''c'' \<mapsto> 8], ChildKeys = [''c''],
              Parent = Some 6, Flags = NoFlags\<rparr>,
        8 := \<lparr>Key = ''c'', Value = Some (VString ''new''), Children = Map.empty,
              ChildKeys = [], Parent = Some 7, Flags = NoFlags\<rparr>)"
  by (simp add: stackTree_def build_defs eval_rules fun_eq_iff)

lemma stackTree_ok: "childKeysOk (heap stackTree)"
  by (simp add: childKeysOk_def stackTree_heap store0_def emptyNode_def)

text \<open>
  C4, as amended. Stacked scopes, for a non-empty key spec and under the child-order
  invariant. (1) When nothing in the child scope matches the keys, the resolution
  from the child scope is the resolution from the scope it inherits from, at every
  limit; (2) nothing matches when the key path names no wildcard, breaks off in the
  child scope and meets no child keyed \<^verbatim>\<open>"*"\<close>; (3) so a single-result lookup of a key
  path that is not in the child scope and is in the parent scope returns the parent
  scope's node. (4) A single-result lookup of a key path that is in the child scope
  returns the child scope's node, whatever the parent scope holds. (5) An unbounded
  resolution does not stop there: for a key path that is in both scopes it returns
  the child scope's node and, later in the list, the parent scope's node. (6) The
  \<^verbatim>\<open>Path\<close> of a node below a scope root is the list of keys from that root down to
  the node, and (7) a resolution from such a node that has not reached the limit
  after the pass over the node goes on in the parent scope with that path put before
  the keys; when nothing below the node matches, it is the resolution of the
  absolute path from the parent scope.
\<close>

theorem scope_inheritance_and_rebasing:
  "(childKeysOk h \<and> keys \<noteq> [] \<and> Flags (h child) AND IsRoot \<noteq> 0
      \<and> Parent (h child) = Some parent \<and> discover h child keys = [] \<longrightarrow>
    internalGetNodes h (Some child) keys limit = internalGetNodes h (Some parent) keys limit)
   \<and> ((\<forall>key \<in> set keys. key \<noteq> ''*'')
      \<and> (\<forall>b \<in> set (walk h child keys). Children (h b) ''*'' = None)
      \<and> length (walk h child keys) \<le> length keys \<longrightarrow>
    discover h child keys = [])
   \<and> (childKeysOk h \<and> keys \<noteq> [] \<and> (\<forall>key \<in> set keys. key \<noteq> ''*'')
      \<and> Flags (h child) AND IsRoot \<noteq> 0 \<and> Parent (h child) = Some parent
      \<and> discover h child keys = [] \<and> length (walk h parent keys) = length keys + 1 \<longrightarrow>
    internalTryGetNode h (Some child) keys
    = Some (Inr (Inr (Some (last (walk h parent keys))))))
   \<and> (childKeysOk h \<and> keys \<noteq> [] \<and> (\<forall>key \<in> set keys. key \<noteq> ''*'')
      \<and> length (walk h child keys) = length keys + 1 \<longrightarrow>
    internalTryGetNode h (Some child) keys
    = Some (Inr (Inr (Some (last (walk h child keys))))))
   \<and> (childKeysOk h \<and> keys \<noteq> [] \<and> (\<forall>key \<in> set keys. key \<noteq> ''*'')
      \<and> Flags (h child) AND IsRoot \<noteq> 0 \<and> Parent (h child) = Some parent
      \<and> scopeRuns h parent keys runs
      \<and> length (walk h child keys) = length keys + 1
      \<and> length (walk h parent keys) = length keys + 1 \<longrightarrow>
    (\<exists>ys zs. internalGetNodes h (Some child) keys 0
             = Some (Inr (Some (last (walk h child keys)) # ys
                          @ Some (last (walk h parent keys)) # zs))))
   \<and> (structPath h root node nodePath \<and> keylessUp h (Some root) \<longrightarrow>
    Path h (Some node) = Some (Inr nodePath))
   \<and> (childKeysOk h \<and> keys \<noteq> [] \<and> structPath h root node nodePath \<and> nodePath \<noteq> []
      \<and> keylessUp h (Some root) \<and> Parent (h root) = Some parentScope \<longrightarrow>
    (\<exists>found. readNodes h limit node keys 0 [] = Inr found
       \<and> internalGetNodes h (Some node) keys limit
         = (if limit > 0 \<and> int (length found) \<ge> limit then Some (Inr found)
            else internalGetNodesLoop h limit parentScope (nodePath @ keys) found))
    \<and> (discover h node keys = [] \<longrightarrow>
         internalGetNodes h (Some node) keys limit
         = internalGetNodes h (Some parentScope) (nodePath @ keys) limit))"
proof (intro conjI impI)
  assume "childKeysOk h \<and> keys \<noteq> [] \<and> Flags (h child) AND IsRoot \<noteq> 0
      \<and> Parent (h child) = Some parent \<and> discover h child keys = []"
  then show "internalGetNodes h (Some child) keys limit
             = internalGetNodes h (Some parent) keys limit"
    by (intro internalGetNodes_root_none) simp_all
next
  assume "(\<forall>key \<in> set keys. key \<noteq> ''*'')
      \<and> (\<forall>b \<in> set (walk h child keys). Children (h b) ''*'' = None)
      \<and> length (walk h child keys) \<le> length keys"
  then show "discover h child keys = []"
    by (intro walk_no_discover) simp_all
next
  assume a: "childKeysOk h \<and> keys \<noteq> [] \<and> (\<forall>key \<in> set keys. key \<noteq> ''*'')
      \<and> Flags (h child) AND IsRoot \<noteq> 0 \<and> Parent (h child) = Some parent
      \<and> discover h child keys = [] \<and> length (walk h parent keys) = length keys + 1"
  then have ok: "childKeysOk h" and k: "keys \<noteq> []" and li: "\<forall>key \<in> set keys. key \<noteq> ''*''"
    and w: "length (walk h parent keys) = length keys + 1" by simp_all
  from walk_discover [OF k li w] obtain others where
    d: "discover h parent keys = Some (last (walk h parent keys)) # others" by blast
  have "internalGetNodes h (Some child) keys 1 = internalGetNodes h (Some parent) keys 1"
    using a by (intro internalGetNodes_root_none) simp_all
  then show "internalTryGetNode h (Some child) keys
             = Some (Inr (Inr (Some (last (walk h parent keys)))))"
    using internalTryGetNode_first [OF ok k d] by (simp add: internalTryGetNode_def)
next
  assume a: "childKeysOk h \<and> keys \<noteq> [] \<and> (\<forall>key \<in> set keys. key \<noteq> ''*'')
      \<and> length (walk h child keys) = length keys + 1"
  then have ok: "childKeysOk h" and k: "keys \<noteq> []" and li: "\<forall>key \<in> set keys. key \<noteq> ''*''"
    and w: "length (walk h child keys) = length keys + 1" by simp_all
  from walk_discover [OF k li w] obtain others where
    d: "discover h child keys = Some (last (walk h child keys)) # others" by blast
  show "internalTryGetNode h (Some child) keys
        = Some (Inr (Inr (Some (last (walk h child keys)))))"
    using ok k d by (rule internalTryGetNode_first)
next
  assume a: "childKeysOk h \<and> keys \<noteq> [] \<and> (\<forall>key \<in> set keys. key \<noteq> ''*'')
      \<and> Flags (h child) AND IsRoot \<noteq> 0 \<and> Parent (h child) = Some parent
      \<and> scopeRuns h parent keys runs
      \<and> length (walk h child keys) = length keys + 1
      \<and> length (walk h parent keys) = length keys + 1"
  then have ok: "childKeysOk h" and k: "keys \<noteq> []" and li: "\<forall>key \<in> set keys. key \<noteq> ''*''"
    and fl: "Flags (h child) AND IsRoot \<noteq> 0" and pa: "Parent (h child) = Some parent"
    and sr: "scopeRuns h parent keys runs"
    and wc: "length (walk h child keys) = length keys + 1"
    and wp: "length (walk h parent keys) = length keys + 1" by simp_all
  from walk_discover [OF k li wc] obtain ys where
    dc: "discover h child keys = Some (last (walk h child keys)) # ys" by blast
  from walk_discover [OF k li wp] obtain zs where
    dp: "discover h parent keys = Some (last (walk h parent keys)) # zs" by blast
  from sr obtain rest where runs: "runs = discover h parent keys # rest"
    by (cases rule: scopeRuns.cases) auto
  have "GetRoot h (Some child) = Some (Some child)" using fl by (simp add: GetRoot_stop)
  then have "scopeRuns h child keys (discover h child keys # runs)"
    using pa fl sr by (rule fromRoot)
  from scopeRuns_loop [OF this ok k, of "[]"]
  have "internalGetNodes h (Some child) keys 0
        = Some (Inr (discover h child keys @ concat runs))"
    using k by (simp add: internalGetNodes_def)
  then have "internalGetNodes h (Some child) keys 0
        = Some (Inr (Some (last (walk h child keys)) # ys
                     @ Some (last (walk h parent keys)) # (zs @ concat rest)))"
    by (simp add: dc dp runs)
  then show "\<exists>ys zs. internalGetNodes h (Some child) keys 0
             = Some (Inr (Some (last (walk h child keys)) # ys
                          @ Some (last (walk h parent keys)) # zs))"
    by blast
next
  assume "structPath h root node nodePath \<and> keylessUp h (Some root)"
  then show "Path h (Some node) = Some (Inr nodePath)"
    by (intro structPath_Path [where root = root]) simp_all
next
  assume a: "childKeysOk h \<and> keys \<noteq> [] \<and> structPath h root node nodePath \<and> nodePath \<noteq> []
      \<and> keylessUp h (Some root) \<and> Parent (h root) = Some parentScope"
  then show "\<exists>found. readNodes h limit node keys 0 [] = Inr found
       \<and> internalGetNodes h (Some node) keys limit
         = (if limit > 0 \<and> int (length found) \<ge> limit then Some (Inr found)
            else internalGetNodesLoop h limit parentScope (nodePath @ keys) found)"
    by (intro internalGetNodes_interior [where root = root]) simp_all
next
  assume a: "childKeysOk h \<and> keys \<noteq> [] \<and> structPath h root node nodePath \<and> nodePath \<noteq> []
      \<and> keylessUp h (Some root) \<and> Parent (h root) = Some parentScope"
    and d: "discover h node keys = []"
  then have ok: "childKeysOk h" and k: "keys \<noteq> []" by simp_all
  from a have "\<exists>found. readNodes h limit node keys 0 [] = Inr found
       \<and> internalGetNodes h (Some node) keys limit
         = (if limit > 0 \<and> int (length found) \<ge> limit then Some (Inr found)
            else internalGetNodesLoop h limit parentScope (nodePath @ keys) found)"
    by (intro internalGetNodes_interior [where root = root]) simp_all
  moreover have "readNodes h limit node keys 0 [] = Inr []" using ok k d by (rule readNodes_none)
  ultimately show "internalGetNodes h (Some node) keys limit
         = internalGetNodes h (Some parentScope) (nodePath @ keys) limit"
    using k by (auto simp: internalGetNodes_def)
qed

theorem scope_inheritance_witness:
  "childKeysOk (heap stackTree)
   \<and> Flags (heap stackTree 5) AND IsRoot \<noteq> 0 \<and> Parent (heap stackTree 5) = Some 0
   \<and> walk (heap stackTree) 5 [''a'', ''b'', ''d''] = [5, 6, 7]
   \<and> walk (heap stackTree) 0 [''a'', ''b'', ''d''] = [0, 1, 2, 4]
   \<and> discover (heap stackTree) 5 [''a'', ''b'', ''d''] = []
   \<and> internalGetNodes (heap stackTree) (Some 5) [''a'', ''b'', ''d''] 0
     = internalGetNodes (heap stackTree) (Some 0) [''a'', ''b'', ''d''] 0
   \<and> internalTryGetNode (heap stackTree) (Some 5) [''a'', ''b'', ''d''] = Some (Inr (Inr (Some 4)))
   \<and> walk (heap stackTree) 5 [''a'', ''b'', ''c''] = [5, 6, 7, 8]
   \<and> walk (heap stackTree) 0 [''a'', ''b'', ''c''] = [0, 1, 2, 3]
   \<and> internalTryGetNode (heap stackTree) (Some 5) [''a'', ''b'', ''c''] = Some (Inr (Inr (Some 8)))
   \<and> scopeRuns (heap stackTree) 0 [''a'', ''b'', ''c''] [[Some 3]]
   \<and> (\<exists>ys zs. internalGetNodes (heap stackTree) (Some 5) [''a'', ''b'', ''c''] 0
               = Some (Inr (Some 8 # ys @ Some 3 # zs)))
   \<and> structPath (heap stackTree) 5 7 [''a'', ''b''] \<and> keylessUp (heap stackTree) (Some 5)
   \<and> Path (heap stackTree) (Some 7) = Some (Inr [''a'', ''b''])
   \<and> discover (heap stackTree) 7 [''d''] = []
   \<and> internalGetNodes (heap stackTree) (Some 7) [''d''] 0
     = internalGetNodes (heap stackTree) (Some 0) [''a'', ''b'', ''d''] 0
   \<and> internalGetNodes (heap stackTree) (Some 0) [''a'', ''b'', ''d''] 0 = Some (Inr [Some 4])"
proof -
  let ?h = "heap stackTree"
  let ?d = "[''a'', ''b'', ''d'']"
  let ?c = "[''a'', ''b'', ''c'']"
  note ok = stackTree_ok
  have fl: "Flags (?h 5) AND IsRoot \<noteq> 0" and pa: "Parent (?h 5) = Some 0"
    by (simp_all add: stackTree_heap IsRoot_def)
  have w5d: "walk ?h 5 ?d = [5, 6, 7]" and w0d: "walk ?h 0 ?d = [0, 1, 2, 4]"
    and w5c: "walk ?h 5 ?c = [5, 6, 7, 8]" and w0c: "walk ?h 0 ?c = [0, 1, 2, 3]"
    by (simp_all add: stackTree_heap)
  have lit: "\<forall>key \<in> set ?d. key \<noteq> ''*''" "\<forall>key \<in> set ?c. key \<noteq> ''*''" by simp_all
  have nostar: "\<forall>b \<in> set (walk ?h 5 ?d). Children (?h b) ''*'' = None"
    unfolding w5d by (simp add: stackTree_heap)
  have ne: "?d \<noteq> []" "?c \<noteq> []" "[''d''] \<noteq> []" "[''a'', ''b''] \<noteq> []" by simp_all
  have l5d: "length (walk ?h 5 ?d) \<le> length ?d" unfolding w5d by simp
  have l0d: "length (walk ?h 0 ?d) = length ?d + 1" unfolding w0d by simp
  have l5c: "length (walk ?h 5 ?c) = length ?c + 1" unfolding w5c by simp
  have l0c: "length (walk ?h 0 ?c) = length ?c + 1" unfolding w0c by simp
  have d5: "discover ?h 5 ?d = []"
    using scope_inheritance_and_rebasing [where h = ?h and child = 5 and keys = ?d]
      lit(1) nostar l5d by blast
  have g5: "internalGetNodes ?h (Some 5) ?d 0 = internalGetNodes ?h (Some 0) ?d 0"
    using scope_inheritance_and_rebasing
            [where h = ?h and child = 5 and parent = 0 and keys = ?d and limit = 0]
      ok ne(1) fl pa d5 by blast
  have "internalTryGetNode ?h (Some 5) ?d = Some (Inr (Inr (Some (last (walk ?h 0 ?d)))))"
    using scope_inheritance_and_rebasing [where h = ?h and child = 5 and parent = 0 and keys = ?d]
      ok ne(1) lit(1) fl pa d5 l0d by blast
  then have t5d: "internalTryGetNode ?h (Some 5) ?d = Some (Inr (Inr (Some 4)))"
    unfolding w0d by simp
  have "internalTryGetNode ?h (Some 5) ?c = Some (Inr (Inr (Some (last (walk ?h 5 ?c)))))"
    using scope_inheritance_and_rebasing [where h = ?h and child = 5 and keys = ?c]
      ok ne(2) lit(2) l5c by blast
  then have t5c: "internalTryGetNode ?h (Some 5) ?c = Some (Inr (Inr (Some 8)))"
    unfolding w5c by simp
  have d0: "discover ?h 0 ?c = [Some 3]" by (simp add: stackTree_heap)
  have "scopeRuns ?h 0 ?c [discover ?h 0 ?c]"
    by (rule lastScope [where root = 0]) (simp_all add: stackTree_heap eval_rules)
  then have sr: "scopeRuns ?h 0 ?c [[Some 3]]" by (simp only: d0)
  have "\<exists>ys zs. internalGetNodes ?h (Some 5) ?c 0
          = Some (Inr (Some (last (walk ?h 5 ?c)) # ys @ Some (last (walk ?h 0 ?c)) # zs))"
    using scope_inheritance_and_rebasing
            [where h = ?h and child = 5 and parent = 0 and keys = ?c and runs = "[[Some 3]]"]
      ok ne(2) lit(2) fl pa sr l5c l0c by blast
  then have both: "\<exists>ys zs. internalGetNodes ?h (Some 5) ?c 0
                            = Some (Inr (Some 8 # ys @ Some 3 # zs))"
    unfolding w5c w0c by simp
  have "structPath ?h 5 5 []"
    by (rule atRoot) (simp add: stackTree_heap IsRoot_def)
  then have "structPath ?h 5 6 ([] @ [Key (?h 6)])"
    by (rule below [rotated 2]) (simp_all add: stackTree_heap IsRoot_def NoFlags_def)
  then have "structPath ?h 5 7 (([] @ [Key (?h 6)]) @ [Key (?h 7)])"
    by (rule below [rotated 2]) (simp_all add: stackTree_heap IsRoot_def NoFlags_def)
  then have sp: "structPath ?h 5 7 [''a'', ''b'']"
    by (simp add: stackTree_heap)
  have "keylessUp ?h (Parent (?h 0))" by (simp add: stackTree_heap atNil)
  then have "keylessUp ?h (Some 0)" by (intro up) (simp_all add: stackTree_heap)
  then have "keylessUp ?h (Parent (?h 5))" by (simp add: stackTree_heap)
  then have ku: "keylessUp ?h (Some 5)" by (intro up) (simp_all add: stackTree_heap)
  have p7: "Path ?h (Some 7) = Some (Inr [''a'', ''b''])"
    using scope_inheritance_and_rebasing
            [where h = ?h and root = 5 and node = 7 and nodePath = "[''a'', ''b'']"]
      sp ku by blast
  have d7: "discover ?h 7 [''d''] = []" by (simp add: stackTree_heap)
  have "internalGetNodes ?h (Some 7) [''d''] 0
        = internalGetNodes ?h (Some 0) ([''a'', ''b''] @ [''d'']) 0"
    using scope_inheritance_and_rebasing
            [where h = ?h and root = 5 and node = 7 and nodePath = "[''a'', ''b'']"
               and keys = "[''d'']" and parentScope = 0 and limit = 0]
      ok ne(3) ne(4) sp ku pa d7 by blast
  then have g7: "internalGetNodes ?h (Some 7) [''d''] 0 = internalGetNodes ?h (Some 0) ?d 0"
    by simp
  have g0: "internalGetNodes ?h (Some 0) ?d 0 = Some (Inr [Some 4])"
    by (simp add: internalGetNodes_def loop_top [where r = 0] stackTree_heap eval_rules)
  show ?thesis
    by (intro conjI ok fl pa w5d w0d d5 g5 t5d w5c w0c t5c sr both sp ku p7 d7 g7 g0)
qed

text \<open>
  C4 as stated fails for an unbounded resolution: with \<^verbatim>\<open>a.b.c\<close> set to \<^verbatim>\<open>"old"\<close> in the
  base scope and to \<^verbatim>\<open>"new"\<close> in the scope on top of it, \<^verbatim>\<open>top.GetNodes("a.b.c")\<close>
  returns both nodes, the one of the top scope and then the one of the base scope:
  the value of the parent scope is not shadowed.
\<close>

theorem child_scope_does_not_hide_parent:
  "GetNodes (heap stackTree) (Some 5) [Some (VString ''a.b.c'')] = Some (Inr [Some 8, Some 3])
   \<and> Value (heap stackTree 8) = Some (VString ''new'')
   \<and> Value (heap stackTree 3) = Some (VString ''old'')
   \<and> Parent (heap stackTree 5) = Some 0 \<and> Flags (heap stackTree 5) = IsRoot"
proof -
  let ?h = "heap stackTree"
  have p3: "readNodes ?h 0 5 [''a'', ''b'', ''c''] 0 [] = Inr [Some 8]"
    by (simp add: stackTree_heap eval_rules)
  have b3: "internalGetNodesLoop ?h 0 0 [''a'', ''b'', ''c''] [Some 8] = Some (Inr [Some 8, Some 3])"
    by (simp add: loop_top [where r = 0] stackTree_heap eval_rules)
  have "internalGetNodesLoop ?h 0 5 [''a'', ''b'', ''c''] []
        = internalGetNodesLoop ?h 0 0 [''a'', ''b'', ''c''] [Some 8]"
    by (rule loop_root [OF p3, where r = 5]) (simp_all add: stackTree_heap eval_rules IsRoot_def)
  with b3 show ?thesis
    by (simp add: GetNodes_def internalGetNodes_def Sprint_def stackTree_heap)
qed

section \<open>Settings evaluation\<close>

lemma splitNEscLoop_done:
  "\<not> ((unlimited \<or> n > 1) \<and> s \<noteq> []) \<Longrightarrow>
   splitNEscLoop s sep escape unlimited n parts = Some (parts @ [Replace s (escape @ sep) sep])"
  by (subst splitNEscLoop.simps) auto

lemma splitNEscLoop_last:
  "(unlimited \<or> n > 1) \<Longrightarrow> s \<noteq> [] \<Longrightarrow> indexEsc s sep escape < 0 \<Longrightarrow>
   splitNEscLoop s sep escape unlimited n parts = Some (parts @ [Replace s (escape @ sep) sep])"
  by (subst splitNEscLoop.simps) auto

lemma splitNEscLoop_step:
  "(unlimited \<or> n > 1) \<Longrightarrow> s \<noteq> [] \<Longrightarrow> \<not> indexEsc s sep escape < 0 \<Longrightarrow>
   splitNEscLoop s sep escape unlimited n parts
   = splitNEscLoop (drop (nat (indexEsc s sep escape) + length sep) s) sep escape unlimited
       (n - 1) (parts @ [Replace (take (nat (indexEsc s sep escape)) s) (escape @ sep) sep])"
  by (subst splitNEscLoop.simps) auto

lemmas split_eval =
  splitNEscLoop_done splitNEscLoop_last splitNEscLoop_step splitEsc_def splitNEsc_def
  indexEsc_def indexEscLoop.simps

lemmas settings_defs =
  GetSettings_def evalCase_def parsealue_def GetStringValues_def GetBool_def TryGetBool_def
  parseBool_def toLowerChar_def internalStringValue_def showNat.simps digitChar_def Sprint_def
  IsRoot_def NoFlags_def

text \<open>The example stores, node by node.\<close>

lemma zipConf_heap:
  "heap zipConf =
     (heap store0)
       (0 := \<lparr>Key = [], Value = None, Children = [''settings'' \<mapsto> 1],
              ChildKeys = [''settings''], Parent = None, Flags = IsRoot\<rparr>,
        1 := \<lparr>Key = ''settings'', Value = None, Children = [''1'' \<mapsto> 2, ''2'' \<mapsto> 5],
              ChildKeys = [''1'', ''2''], Parent = Some 0, Flags = NoFlags\<rparr>,
        2 := \<lparr>Key = ''1'', Value = None, Children = [''default'' \<mapsto> 3, ''continue'' \<mapsto> 4],
              ChildKeys = [''default'', ''continue''], Parent = Some 1, Flags = NoFlags\<rparr>,
        3 := \<lparr>Key = ''default'', Value = Some (VString ''label:Zip code''),
              Children = Map.empty, ChildKeys = [], Parent = Some 2, Flags = NoFlags\<rparr>,
        4 := \<lparr>Key = ''continue'', Value = Some (VString ''1''), Children = Map.empty,
              ChildKeys = [], Parent = Some 2, Flags = NoFlags\<rparr>,
        5 := \<lparr>Key = ''2'', Value = None, Children = [''keys'' \<mapsto> 6, ''3041'' \<mapsto> 8],
              ChildKeys = [''keys'', ''3041''], Parent = Some 1, Flags = NoFlags\<rparr>,
        6 := \<lparr>Key = ''keys'', Value = None, Children = [''1'' \<mapsto> 7], ChildKeys = [''1''],
              Parent = Some 5, Flags = NoFlags\<rparr>,
        7 := \<lparr>Key = ''1'', Value = Some (VString ''category''), Children = Map.empty,
              ChildKeys = [], Parent = Some 6, Flags = NoFlags\<rparr>,
        8 := \<lparr>Key = ''3041'', Value = None, Children = [''s'' \<mapsto> 9], ChildKeys = [''s''],
              Parent = Some 5, Flags = NoFlags\<rparr>,
        9 := \<lparr>Key = ''s'', Value = None, Children = [''value'' \<mapsto> 10],
              ChildKeys = [''value''], Parent = Some 8, Flags = NoFlags\<rparr>,
        10 := \<lparr>Key = ''value'', Value = Some (VString ''suffix:(of house)''),
               Children = Map.empty, ChildKeys = [], Parent = Some 9, Flags = NoFlags\<rparr>)"
  and zipConf_nxt: "nxt zipConf = 11"
  by (simp_all add: zipConf_def build_defs fun_eq_iff)

lemma zipContext_heap:
  "heap zipContext =
     (heap zipConf)
       (11 := \<lparr>Key = [], Value = None, Children = [''category'' \<mapsto> 12, ''type'' \<mapsto> 13],
               ChildKeys = [''category'', ''type''], Parent = Some 0, Flags = IsRoot\<rparr>,
        12 := \<lparr>Key = ''category'', Value = Some (VInt 3041), Children = Map.empty,
               ChildKeys = [], Parent = Some 11, Flags = NoFlags\<rparr>,
        13 := \<lparr>Key = ''type'', Value = Some (VString ''s''), Children = Map.empty,
               ChildKeys = [], Parent = Some 11, Flags = NoFlags\<rparr>)"
  by (simp add: zipContext_def build_defs fun_eq_iff zipConf_nxt eval_rules zipConf_heap)

lemma zipConf2_heap:
  "heap zipConf2 =
     (heap store0)
       (0 := \<lparr>Key = [], Value = None, Children = [''settings'' \<mapsto> 1],
              ChildKeys = [''settings''], Parent = None, Flags = IsRoot\<rparr>,
        1 := \<lparr>Key = ''settings'', Value = None, Children = [''1'' \<mapsto> 2, ''2'' \<mapsto> 5],
              ChildKeys = [''1'', ''2''], Parent = Some 0, Flags = NoFlags\<rparr>,
        2 := \<lparr>Key = ''1'', Value = None, Children = [''default'' \<mapsto> 3, ''continue'' \<mapsto> 4],
              ChildKeys = [''default'', ''continue''], Parent = Some 1, Flags = NoFlags\<rparr>,
        3 := \<lparr>Key = ''default'', Value = Some (VString ''label:Zip code''),
              Children = Map.empty, ChildKeys = [], Parent = Some 2, Flags = NoFlags\<rparr>,
        4 := \<lparr>Key = ''continue'', Value = Some (VString ''1''), Children = Map.empty,
              ChildKeys = [], Parent = Some 2, Flags = NoFlags\<rparr>,
        5 := \<lparr>Key = ''2'', Value = None, Children = [''keys'' \<mapsto> 6, ''3041'' \<mapsto> 9],
              ChildKeys = [''keys'', ''3041''], Parent = Some 1, Flags = NoFlags\<rparr>,
        6 := \<lparr>Key = ''keys'', Value = None, Children = [''1'' \<mapsto> 7, ''2'' \<mapsto> 8],
              ChildKeys = [''1'', ''2''], Parent = Some 5, Flags = NoFlags\<rparr>,
        7 := \<lparr>Key = ''1'', Value = Some (VString ''category''), Children = Map.empty,
              ChildKeys = [], Parent = Some 6, Flags = NoFlags\<rparr>,
        8 := \<lparr>Key = ''2'', Value = Some (VString ''type''), Children = Map.empty,
              ChildKeys = [], Parent = Some 6, Flags = NoFlags\<rparr>,
        9 := \<lparr>Key = ''3041'', Value = None, Children = [''s'' \<mapsto> 10], ChildKeys = [''s''],
              Parent = Some 5, Flags = NoFlags\<rparr>,
        10 := \<lparr>Key = ''s'', Value = None, Children = [''value'' \<mapsto> 11],
               ChildKeys = [''value''], Parent = Some 9, Flags = NoFlags\<rparr>,
        11 := \<lparr>Key = ''value'', Value = Some (VString ''suffix:(of house)''),
               Children = Map.empty, ChildKeys = [], Parent = Some 10, Flags = NoFlags\<rparr>)"
  and zipConf2_nxt: "nxt zipConf2 = 12"
  by (simp_all add: zipConf2_def build_defs fun_eq_iff)

lemma zipContext2_heap:
  "heap zipContext2 =
     (heap zipConf2)
       (12 := \<lparr>Key = [], Value = None, Children = [''category'' \<mapsto> 13, ''type'' \<mapsto> 14],
               ChildKeys = [''category'', ''type''], Parent = Some 0, Flags = IsRoot\<rparr>,
        13 := \<lparr>Key = ''category'', Value = Some (VInt 3041), Children = Map.empty,
               ChildKeys = [], Parent = Some 12, Flags = NoFlags\<rparr>,
        14 := \<lparr>Key = ''type'', Value = Some (VString ''s''), Children = Map.empty,
               ChildKeys = [], Parent = Some 12, Flags = NoFlags\<rparr>)"
  by (simp add: zipContext2_def build_defs fun_eq_iff zipConf2_nxt eval_rules zipConf2_heap)

lemma zipOther2_heap:
  "heap zipOther2 =
     (heap zipConf2)
       (12 := \<lparr>Key = [], Value = None, Children = [''category'' \<mapsto> 13],
               ChildKeys = [''category''], Parent = Some 0, Flags = IsRoot\<rparr>,
        13 := \<lparr>Key = ''category'', Value = Some (VInt 9999), Children = Map.empty,
               ChildKeys = [], Parent = Some 12, Flags = NoFlags\<rparr>)"
  by (simp add: zipOther2_def build_defs fun_eq_iff zipConf2_nxt eval_rules zipConf2_heap)

lemma starConf_heap:
  "heap starConf =
     (heap store0)
       (0 := \<lparr>Key = [], Value = None, Children = [''g'' \<mapsto> 1], ChildKeys = [''g''],
              Parent = None, Flags = IsRoot\<rparr>,
        1 := \<lparr>Key = ''g'', Value = None, Children = [''1'' \<mapsto> 2, ''2'' \<mapsto> 5],
              ChildKeys = [''1'', ''2''], Parent = Some 0, Flags = NoFlags\<rparr>,
        2 := \<lparr>Key = ''1'', Value = None, Children = [''default'' \<mapsto> 3, ''*'' \<mapsto> 4],
              ChildKeys = [''default'', ''*''], Parent = Some 1, Flags = NoFlags\<rparr>,
        3 := \<lparr>Key = ''default'', Value = Some (VString ''a''), Children = Map.empty,
              ChildKeys = [], Parent = Some 2, Flags = NoFlags\<rparr>,
        4 := \<lparr>Key = ''*'', Value = Some (VString ''1''), Children = Map.empty,
              ChildKeys = [], Parent = Some 2, Flags = NoFlags\<rparr>,
        5 := \<lparr>Key = ''2'', Value = None, Children = [''default'' \<mapsto> 6],
              ChildKeys = [''default''], Parent = Some 1, Flags = NoFlags\<rparr>,
        6 := \<lparr>Key = ''default'', Value = Some (VString ''b''), Children = Map.empty,
              ChildKeys = [], Parent = Some 5, Flags = NoFlags\<rparr>)"
  by (simp add: starConf_def build_defs fun_eq_iff)

lemma offConf_heap:
  "heap offConf =
     (heap store0)
       (0 := \<lparr>Key = [], Value = None, Children = [''g'' \<mapsto> 1], ChildKeys = [''g''],
              Parent = None, Flags = IsRoot\<rparr>,
        1 := \<lparr>Key = ''g'', Value = None, Children = [''1'' \<mapsto> 2, ''2'' \<mapsto> 5],
              ChildKeys = [''1'', ''2''], Parent = Some 0, Flags = NoFlags\<rparr>,
        2 := \<lparr>Key = ''1'', Value = None, Children = [''default'' \<mapsto> 3, ''continue'' \<mapsto> 4],
              ChildKeys = [''default'', ''continue''], Parent = Some 1, Flags = NoFlags\<rparr>,
        3 := \<lparr>Key = ''default'', Value = Some (VString ''a''), Children = Map.empty,
              ChildKeys = [], Parent = Some 2, Flags = NoFlags\<rparr>,
        4 := \<lparr>Key = ''continue'', Value = Some (VString ''0''), Children = Map.empty,
              ChildKeys = [], Parent = Some 2, Flags = NoFlags\<rparr>,
        5 := \<lparr>Key = ''2'', Value = None, Children = [''default'' \<mapsto> 6],
              ChildKeys = [''default''], Parent = Some 1, Flags = NoFlags\<rparr>,
        6 := \<lparr>Key = ''default'', Value = Some (VString ''b''), Children = Map.empty,
              ChildKeys = [], Parent = Some 5, Flags = NoFlags\<rparr>)"
  by (simp add: offConf_def build_defs fun_eq_iff)

lemma scopeConf_heap:
  "heap scopeConf =
     (heap store0)
       (0 := \<lparr>Key = [], Value = None, Children = [''g'' \<mapsto> 1], ChildKeys = [''g''],
              Parent = None, Flags = IsRoot\<rparr>,
        1 := \<lparr>Key = ''g'', Value = None, Children = [''1'' \<mapsto> 2], ChildKeys = [''1''],
              Parent = Some 0, Flags = NoFlags\<rparr>,
        2 := \<lparr>Key = ''1'', Value = None, Children = [''continue'' \<mapsto> 3],
              ChildKeys = [''continue''], Parent = Some 1, Flags = NoFlags\<rparr>,
        3 := \<lparr>Key = ''continue'', Value = Some (VString ''1''), Children = Map.empty,
              ChildKeys = [], Parent = Some 2, Flags = NoFlags\<rparr>,
        4 := \<lparr>Key = [], Value = None, Children = [''g'' \<mapsto> 5], ChildKeys = [''g''],
              Parent = Some 0, Flags = IsRoot\<rparr>,
        5 := \<lparr>Key = ''g'', Value = None, Children = [''1'' \<mapsto> 6, ''2'' \<mapsto> 8],
              ChildKeys = [''1'', ''2''], Parent = Some 4, Flags = NoFlags\<rparr>,
        6 := \<lparr>Key = ''1'', Value = None, Children = [''default'' \<mapsto> 7],
              ChildKeys = [''default''], Parent = Some 5, Flags = NoFlags\<rparr>,
        7 := \<lparr>Key = ''default'', Value = Some (VString ''a''), Children = Map.empty,
              ChildKeys = [], Parent = Some 6, Flags = NoFlags\<rparr>,
        8 := \<lparr>Key = ''2'', Value = None, Children = [''default'' \<mapsto> 9],
              ChildKeys = [''default''], Parent = Some 5, Flags = NoFlags\<rparr>,
        9 := \<lparr>Key = ''default'', Value = Some (VString ''b''), Children = Map.empty,
              ChildKeys = [], Parent = Some 8, Flags = NoFlags\<rparr>)"
  by (simp add: scopeConf_def build_defs eval_rules fun_eq_iff)

lemma scopeConf_ok: "childKeysOk (heap scopeConf)"
  by (simp add: childKeysOk_def scopeConf_heap store0_def emptyNode_def)

lemmas zip_eval =
  zipConf_heap zipContext_heap zipConf2_heap zipContext2_heap zipOther2_heap getter_defs
  eval_rules settings_defs split_eval

text \<open>A lookup of one literal key from a node: the child of that key, else the child
  keyed \<^verbatim>\<open>"*"\<close>, else what the scopes above hold at the path of the node.\<close>

lemma lookup_exact:
  assumes "Children (h c) key = Some k" and "key \<noteq> ''*''"
  shows "internalTryGetNode h (Some c) [key] = Some (Inr (Inr (Some k)))"
proof -
  have r: "readNodes h 1 c [key] 0 [] = Inr [Some k]"
    using assms by (subst readNodes.simps) simp
  have "internalGetNodesLoop h 1 c [key] [] = Some (Inr [Some k])"
    by (rule loop_limit [OF r]) simp_all
  then show ?thesis by (simp add: internalTryGetNode_def internalGetNodes_def)
qed

lemma lookup_star:
  assumes "Children (h c) key = None" and "key \<noteq> ''*''" and "Children (h c) ''*'' = Some k"
  shows "internalTryGetNode h (Some c) [key] = Some (Inr (Inr (Some k)))"
proof -
  have r: "readNodes h 1 c [key] 0 [] = Inr [Some k]"
    using assms by (subst readNodes.simps) (simp add: readNodesStar.simps)
  have "internalGetNodesLoop h 1 c [key] [] = Some (Inr [Some k])"
    by (rule loop_limit [OF r]) simp_all
  then show ?thesis by (simp add: internalTryGetNode_def internalGetNodes_def)
qed

lemma lookup_none:
  assumes "Children (h c) key = None" and "key \<noteq> ''*''" and "Children (h c) ''*'' = None"
    and "GetRoot h (Some c) = Some (Some r)" and "Parent (h r) = None"
  shows "internalTryGetNode h (Some c) [key] = Some (Inr (Inl errorNodeNotFound))"
proof -
  have r: "readNodes h 1 c [key] 0 [] = Inr []"
    using assms(1-3) by (subst readNodes.simps) (simp add: readNodesStar.simps)
  have "internalGetNodesLoop h 1 c [key] [] = Some (Inr [])"
    using r assms(4,5) by (rule loop_top)
  then show ?thesis by (simp add: internalTryGetNode_def internalGetNodes_def)
qed

lemma lookup_inherited:
  assumes c: "Children (h c) key = None" "key \<noteq> ''*''" "Children (h c) ''*'' = None"
    and ok: "childKeysOk h" and sp: "structPath h r c ks" and ne: "ks \<noteq> []"
    and ku: "keylessUp h (Some r)" and pa: "Parent (h r) = Some ps"
    and d: "discover h ps (ks @ [key]) = x # others"
  shows "internalTryGetNode h (Some c) [key] = Some (Inr (Inr x))"
proof -
  have k1: "[key] \<noteq> []" and k2: "ks @ [key] \<noteq> []" by simp_all
  have d0: "discover h c [key] = []" using c by simp
  from internalGetNodes_interior [OF ok k1 sp ne ku pa, of 1] obtain found where
    r: "readNodes h 1 c [key] 0 [] = Inr found"
    and g: "internalGetNodes h (Some c) [key] 1
            = (if 1 > (0::int) \<and> int (length found) \<ge> 1 then Some (Inr found)
               else internalGetNodesLoop h 1 ps (ks @ [key]) found)"
    by blast
  have "readNodes h 1 c [key] 0 [] = Inr []" using ok k1 d0 by (rule readNodes_none)
  with r have "found = []" by simp
  with g have "internalGetNodes h (Some c) [key] 1 = internalGetNodes h (Some ps) (ks @ [key]) 1"
    by (simp add: internalGetNodes_def)
  moreover have "internalTryGetNode h (Some ps) (ks @ [key]) = Some (Inr (Inr x))"
    using ok k2 d by (rule internalTryGetNode_first)
  ultimately show ?thesis by (simp add: internalTryGetNode_def)
qed

text \<open>\<^verbatim>\<open>GetBool("continue")\<close> is the truthiness of the value of the node found, and false
  when no node is found.\<close>

lemma parseBool_truthy:
  "parseBool v = Inr b \<Longrightarrow> truthy v = b"
  "parseBool v = Inl err \<Longrightarrow> \<not> truthy v"
  by (auto simp: parseBool_def truthy_def Let_def split: if_splits)

lemma truthy_bool: "truthy (Some (VBool b)) = b"
  by (simp add: truthy_def Sprint_def toLowerChar_def)

lemma GetBool_found:
  assumes "internalTryGetNode h node [''continue''] = Some (Inr (Inr (Some k)))"
  shows "GetBool h node [Some (VString ''continue'')] = Some (Inr (truthy (Value (h k))))"
proof -
  have t: "TryGet h node [Some (VString ''continue'')] = Some (Inr (Inr (Value (h k))))"
    using assms by (simp add: TryGet_def TryGetNode_def Sprint_def)
  show ?thesis
  proof (cases "\<exists>b. Value (h k) = Some (VBool b)")
    case True
    then obtain b where "Value (h k) = Some (VBool b)" by blast
    with t show ?thesis by (simp add: GetBool_def TryGetBool_def truthy_bool)
  next
    case False
    then have "TryGetBool h node [Some (VString ''continue'')]
               = Some (Inr (parseBool (Value (h k))))"
      using t by (auto simp: TryGetBool_def split: option.splits val.splits)
    then show ?thesis
      by (cases "parseBool (Value (h k))") (simp_all add: GetBool_def parseBool_truthy)
  qed
qed

lemma GetBool_missing:
  assumes "internalTryGetNode h node [''continue''] = Some (Inr (Inl errorNodeNotFound))"
  shows "GetBool h node [Some (VString ''continue'')] = Some (Inr False)"
  using assms
  by (simp add: GetBool_def TryGetBool_def TryGet_def TryGetNode_def Sprint_def)

text \<open>A case with a child \<^verbatim>\<open>default\<close> matches, and the loop over the cases, one round.\<close>

lemma evalCase_default:
  assumes "Children (h c) ''default'' = Some d"
    and "parsealue usePrefix pfx reply (internalStringValue h (Some d)) = Some (Inr reply1)"
  shows "evalCase h node usePrefix pfx (Some c) reply = Some (Inr (True, reply1))"
proof -
  have "internalTryGetNode h (Some c) [''default''] = Some (Inr (Inr (Some d)))"
    using assms(1) by (rule lookup_exact) simp
  then have "GetNode h (Some c) [Some (VString ''default'')] = Some (Inr (Some d))"
    by (simp add: GetNode_def GetNodeDefault_def TryGetNode_def Sprint_def)
  with assms(2) show ?thesis by (simp add: evalCase_def)
qed

lemma casesLoop_matched:
  "evalCase h node usePrefix pfx caseNode reply = Some (Inr (True, reply1)) \<Longrightarrow>
   GetBool h caseNode [Some (VString ''continue'')] = Some (Inr b) \<Longrightarrow>
   casesLoop h node usePrefix pfx (caseNode # rest) reply
   = (if b then casesLoop h node usePrefix pfx rest reply1 else Some (Inr reply1))"
  by simp

lemma casesLoop_unmatched:
  "evalCase h node usePrefix pfx caseNode reply = Some (Inr (False, reply1)) \<Longrightarrow>
   casesLoop h node usePrefix pfx (caseNode # rest) reply
   = casesLoop h node usePrefix pfx rest reply1"
  by simp

text \<open>
  C6, as amended. A case that has a child \<^verbatim>\<open>default\<close> matches. After a case of a group
  matched, the loop over the cases stops, unless \<^verbatim>\<open>GetBool("continue")\<close> looked up from
  the matched case holds; then, as after a case that did not match, it goes on with
  the next case and the same reply. The lookup is the resolver's: it finds the child
  \<^verbatim>\<open>continue\<close> of the case if there is one, otherwise the child of the case keyed
  \<^verbatim>\<open>"*"\<close> if there is one, otherwise the first node that the scope above holds for the
  path of the case followed by \<^verbatim>\<open>continue\<close>; the loop goes on when the value of the
  node found is truthy, and stops when it is not or when, in a tree without a scope
  above, no node is found. The group with case 1 = \<^verbatim>\<open>{default: "label:Zip code",
  continue: "1"}\<close> and case 2 = \<^verbatim>\<open>{keys: [category, type], 3041: {s: {value:
  "suffix:(of house)"}}}\<close> gives \<^verbatim>\<open>{label: [Zip code], suffix: [(of house)]}\<close> in the
  context \<^verbatim>\<open>category=3041, type=s\<close> and \<^verbatim>\<open>{label: [Zip code]}\<close> in the context
  \<^verbatim>\<open>category=9999\<close>; the key list of case 2 has to name both \<^verbatim>\<open>category\<close> and
  \<^verbatim>\<open>type\<close> for the lookup to reach \<^verbatim>\<open>3041.s.value\<close>. The group with case 1 =
  \<^verbatim>\<open>{default: "a", "*": "1"}\<close> and case 2 = \<^verbatim>\<open>{default: "b"}\<close> gives \<^verbatim>\<open>{value: [a, b]}\<close>,
  and the group with case 1 = \<^verbatim>\<open>{default: "a", continue: "0"}\<close> and case 2 =
  \<^verbatim>\<open>{default: "b"}\<close> gives \<^verbatim>\<open>{value: [a]}\<close>.
\<close>

theorem settings_cases_stop_unless_continue:
  "(Children (h c) ''default'' = Some d
      \<and> parsealue usePrefix pfx reply (internalStringValue h (Some d)) = Some (Inr reply1) \<longrightarrow>
    evalCase h node usePrefix pfx (Some c) reply = Some (Inr (True, reply1)))
   \<and> (evalCase h node usePrefix pfx (Some c) reply = Some (Inr (True, reply1))
      \<and> Children (h c) ''continue'' = Some k \<longrightarrow>
    casesLoop h node usePrefix pfx (Some c # rest) reply
    = (if truthy (Value (h k)) then casesLoop h node usePrefix pfx rest reply1
       else Some (Inr reply1)))
   \<and> (evalCase h node usePrefix pfx (Some c) reply = Some (Inr (True, reply1))
      \<and> Children (h c) ''continue'' = None \<and> Children (h c) ''*'' = Some k \<longrightarrow>
    casesLoop h node usePrefix pfx (Some c # rest) reply
    = (if truthy (Value (h k)) then casesLoop h node usePrefix pfx rest reply1
       else Some (Inr reply1)))
   \<and> (evalCase h node usePrefix pfx (Some c) reply = Some (Inr (True, reply1))
      \<and> Children (h c) ''continue'' = None \<and> Children (h c) ''*'' = None
      \<and> GetRoot h (Some c) = Some (Some r) \<and> Parent (h r) = None \<longrightarrow>
    casesLoop h node usePrefix pfx (Some c # rest) reply = Some (Inr reply1))
   \<and> (evalCase h node usePrefix pfx (Some c) reply = Some (Inr (True, reply1))
      \<and> Children (h c) ''continue'' = None \<and> Children (h c) ''*'' = None
      \<and> childKeysOk h \<and> structPath h r c casePath \<and> casePath \<noteq> []
      \<and> keylessUp h (Some r) \<and> Parent (h r) = Some parentScope
      \<and> discover h parentScope (casePath @ [''continue'']) = Some k # others \<longrightarrow>
    casesLoop h node usePrefix pfx (Some c # rest) reply
    = (if truthy (Value (h k)) then casesLoop h node usePrefix pfx rest reply1
       else Some (Inr reply1)))
   \<and> (evalCase h node usePrefix pfx caseNode reply = Some (Inr (False, reply1)) \<longrightarrow>
    casesLoop h node usePrefix pfx (caseNode # rest) reply
    = casesLoop h node usePrefix pfx rest reply1)
   \<and> GetSettings (heap zipContext2) (Some 12) [Some (VString ''settings'')]
     = Some (Inr [''label'' \<mapsto> [''Zip code''], ''suffix'' \<mapsto> [''(of house)'']])
   \<and> GetSettings (heap zipOther2) (Some 12) [Some (VString ''settings'')]
     = Some (Inr [''label'' \<mapsto> [''Zip code'']])
   \<and> GetSettings (heap starConf) (Some 0) [Some (VString ''g'')]
     = Some (Inr [''value'' \<mapsto> [''a'', ''b'']])
   \<and> GetSettings (heap offConf) (Some 0) [Some (VString ''g'')]
     = Some (Inr [''value'' \<mapsto> [''a'']])"
proof (intro conjI impI)
  assume "Children (h c) ''default'' = Some d
      \<and> parsealue usePrefix pfx reply (internalStringValue h (Some d)) = Some (Inr reply1)"
  then show "evalCase h node usePrefix pfx (Some c) reply = Some (Inr (True, reply1))"
    by (intro evalCase_default [where d = d]) simp_all
next
  assume a: "evalCase h node usePrefix pfx (Some c) reply = Some (Inr (True, reply1))
      \<and> Children (h c) ''continue'' = Some k"
  then have "internalTryGetNode h (Some c) [''continue''] = Some (Inr (Inr (Some k)))"
    by (intro lookup_exact) simp_all
  then have "GetBool h (Some c) [Some (VString ''continue'')] = Some (Inr (truthy (Value (h k))))"
    by (rule GetBool_found)
  with a show "casesLoop h node usePrefix pfx (Some c # rest) reply
    = (if truthy (Value (h k)) then casesLoop h node usePrefix pfx rest reply1
       else Some (Inr reply1))"
    by (intro casesLoop_matched) simp_all
next
  assume a: "evalCase h node usePrefix pfx (Some c) reply = Some (Inr (True, reply1))
      \<and> Children (h c) ''continue'' = None \<and> Children (h c) ''*'' = Some k"
  then have "internalTryGetNode h (Some c) [''continue''] = Some (Inr (Inr (Some k)))"
    by (intro lookup_star) simp_all
  then have "GetBool h (Some c) [Some (VString ''continue'')] = Some (Inr (truthy (Value (h k))))"
    by (rule GetBool_found)
  with a show "casesLoop h node usePrefix pfx (Some c # rest) reply
    = (if truthy (Value (h k)) then casesLoop h node usePrefix pfx rest reply1
       else Some (Inr reply1))"
    by (intro casesLoop_matched) simp_all
next
  assume a: "evalCase h node usePrefix pfx (Some c) reply = Some (Inr (True, reply1))
      \<and> Children (h c) ''continue'' = None \<and> Children (h c) ''*'' = None
      \<and> GetRoot h (Some c) = Some (Some r) \<and> Parent (h r) = None"
  then have "internalTryGetNode h (Some c) [''continue''] = Some (Inr (Inl errorNodeNotFound))"
    by (intro lookup_none [where r = r]) simp_all
  then have "GetBool h (Some c) [Some (VString ''continue'')] = Some (Inr False)"
    by (rule GetBool_missing)
  with a have "casesLoop h node usePrefix pfx (Some c # rest) reply
    = (if False then casesLoop h node usePrefix pfx rest reply1 else Some (Inr reply1))"
    by (intro casesLoop_matched) simp_all
  then show "casesLoop h node usePrefix pfx (Some c # rest) reply = Some (Inr reply1)"
    by simp
next
  assume a: "evalCase h node usePrefix pfx (Some c) reply = Some (Inr (True, reply1))
      \<and> Children (h c) ''continue'' = None \<and> Children (h c) ''*'' = None
      \<and> childKeysOk h \<and> structPath h r c casePath \<and> casePath \<noteq> []
      \<and> keylessUp h (Some r) \<and> Parent (h r) = Some parentScope
      \<and> discover h parentScope (casePath @ [''continue'']) = Some k # others"
  then have "internalTryGetNode h (Some c) [''continue''] = Some (Inr (Inr (Some k)))"
    by (intro lookup_inherited [where r = r and ks = casePath and ps = parentScope
                                  and others = others]) simp_all
  then have "GetBool h (Some c) [Some (VString ''continue'')] = Some (Inr (truthy (Value (h k))))"
    by (rule GetBool_found)
  with a show "casesLoop h node usePrefix pfx (Some c # rest) reply
    = (if truthy (Value (h k)) then casesLoop h node usePrefix pfx rest reply1
       else Some (Inr reply1))"
    by (intro casesLoop_matched) simp_all
next
  assume "evalCase h node usePrefix pfx caseNode reply = Some (Inr (False, reply1))"
  then show "casesLoop h node usePrefix pfx (caseNode # rest) reply
    = casesLoop h node usePrefix pfx rest reply1"
    by (rule casesLoop_unmatched)
next
  show "GetSettings (heap zipContext2) (Some 12) [Some (VString ''settings'')]
        = Some (Inr [''label'' \<mapsto> [''Zip code''], ''suffix'' \<mapsto> [''(of house)'']])"
    by (simp add: zip_eval)
next
  show "GetSettings (heap zipOther2) (Some 12) [Some (VString ''settings'')]
        = Some (Inr [''label'' \<mapsto> [''Zip code'']])"
    by (simp add: zip_eval)
next
  show "GetSettings (heap starConf) (Some 0) [Some (VString ''g'')]
        = Some (Inr [''value'' \<mapsto> [''a'', ''b'']])"
    by (simp add: starConf_heap getter_defs eval_rules settings_defs split_eval)
next
  show "GetSettings (heap offConf) (Some 0) [Some (VString ''g'')]
        = Some (Inr [''value'' \<mapsto> [''a'']])"
    by (simp add: offConf_heap getter_defs eval_rules settings_defs split_eval)
qed

theorem settings_cases_witness:
  "Children (heap zipContext2 2) ''default'' = Some 3
   \<and> Children (heap zipContext2 2) ''continue'' = Some 4 \<and> truthy (Value (heap zipContext2 4))
   \<and> evalCase (heap zipContext2) (Some 12) False [] (Some 2) Map.empty
     = Some (Inr (True, [''label'' \<mapsto> [''Zip code'']]))
   \<and> casesLoop (heap zipContext2) (Some 12) False [] [Some 2, Some 5] Map.empty
     = casesLoop (heap zipContext2) (Some 12) False [] [Some 5] [''label'' \<mapsto> [''Zip code'']]
   \<and> Children (heap offConf 2) ''default'' = Some 3
   \<and> Children (heap offConf 2) ''continue'' = Some 4 \<and> \<not> truthy (Value (heap offConf 4))
   \<and> casesLoop (heap offConf) (Some 0) False [] [Some 2, Some 5] Map.empty
     = Some (Inr [''value'' \<mapsto> [''a'']])
   \<and> Children (heap starConf 2) ''default'' = Some 3
   \<and> Children (heap starConf 2) ''continue'' = None \<and> Children (heap starConf 2) ''*'' = Some 4
   \<and> truthy (Value (heap starConf 4))
   \<and> casesLoop (heap starConf) (Some 0) False [] [Some 2, Some 5] Map.empty
     = casesLoop (heap starConf) (Some 0) False [] [Some 5] [''value'' \<mapsto> [''a'']]
   \<and> Children (heap starConf 5) ''default'' = Some 6
   \<and> Children (heap starConf 5) ''continue'' = None \<and> Children (heap starConf 5) ''*'' = None
   \<and> GetRoot (heap starConf) (Some 5) = Some (Some 0) \<and> Parent (heap starConf 0) = None
   \<and> casesLoop (heap starConf) (Some 0) False [] [Some 5] [''value'' \<mapsto> [''a'']]
     = Some (Inr [''value'' \<mapsto> [''a'', ''b'']])
   \<and> Children (heap scopeConf 6) ''default'' = Some 7
   \<and> Children (heap scopeConf 6) ''continue'' = None \<and> Children (heap scopeConf 6) ''*'' = None
   \<and> childKeysOk (heap scopeConf) \<and> structPath (heap scopeConf) 4 6 [''g'', ''1'']
   \<and> keylessUp (heap scopeConf) (Some 4) \<and> Parent (heap scopeConf 4) = Some 0
   \<and> discover (heap scopeConf) 0 ([''g'', ''1''] @ [''continue'']) = [Some 3]
   \<and> truthy (Value (heap scopeConf 3))
   \<and> casesLoop (heap scopeConf) (Some 4) False [] [Some 6, Some 8] Map.empty
     = casesLoop (heap scopeConf) (Some 4) False [] [Some 8] [''value'' \<mapsto> [''a'']]
   \<and> evalCase (heap zipOther2) (Some 12) False [] (Some 5) [''label'' \<mapsto> [''Zip code'']]
     = Some (Inr (False, [''label'' \<mapsto> [''Zip code'']]))
   \<and> casesLoop (heap zipOther2) (Some 12) False [] [Some 5] [''label'' \<mapsto> [''Zip code'']]
     = casesLoop (heap zipOther2) (Some 12) False [] [] [''label'' \<mapsto> [''Zip code'']]"
proof -
  let ?z = "heap zipContext2" and ?o = "heap offConf" and ?s = "heap starConf"
    and ?c = "heap scopeConf" and ?y = "heap zipOther2"
  let ?label = "[''label'' \<mapsto> [''Zip code'']]"
  let ?a = "[''value'' \<mapsto> [''a'']]" and ?ab = "[''value'' \<mapsto> [''a'', ''b'']]"
  note vals = internalStringValue_def Sprint_def parsealue_def split_eval
  note tr = truthy_def Sprint_def toLowerChar_def

  have z1: "Children (?z 2) ''default'' = Some 3" and z2: "Children (?z 2) ''continue'' = Some 4"
    by (simp_all add: zipContext2_heap zipConf2_heap)
  have z3: "truthy (Value (?z 4))" by (simp add: zipContext2_heap zipConf2_heap tr)
  have z4: "parsealue False [] Map.empty (internalStringValue ?z (Some 3)) = Some (Inr ?label)"
    by (simp add: zipContext2_heap zipConf2_heap vals)
  have z5: "evalCase ?z (Some 12) False [] (Some 2) Map.empty = Some (Inr (True, ?label))"
    using settings_cases_stop_unless_continue
            [where h = ?z and c = 2 and d = 3 and usePrefix = False and pfx = "[]"
               and reply = Map.empty and ?reply1.0 = ?label and node = "Some 12"]
      z1 z4 by blast
  have "casesLoop ?z (Some 12) False [] (Some 2 # [Some 5]) Map.empty
        = (if truthy (Value (?z 4)) then casesLoop ?z (Some 12) False [] [Some 5] ?label
           else Some (Inr ?label))"
    using settings_cases_stop_unless_continue
            [where h = ?z and c = 2 and k = 4 and usePrefix = False and pfx = "[]"
               and reply = Map.empty and ?reply1.0 = ?label and node = "Some 12"
               and rest = "[Some 5]"]
      z5 z2 by blast
  with z3 have z6: "casesLoop ?z (Some 12) False [] [Some 2, Some 5] Map.empty
                    = casesLoop ?z (Some 12) False [] [Some 5] ?label"
    by (simp only: if_True)

  have o1: "Children (?o 2) ''default'' = Some 3" and o2: "Children (?o 2) ''continue'' = Some 4"
    by (simp_all add: offConf_heap)
  have o3: "\<not> truthy (Value (?o 4))" by (simp add: offConf_heap tr)
  have o4: "parsealue False [] Map.empty (internalStringValue ?o (Some 3)) = Some (Inr ?a)"
    by (simp add: offConf_heap vals)
  have o5: "evalCase ?o (Some 0) False [] (Some 2) Map.empty = Some (Inr (True, ?a))"
    using settings_cases_stop_unless_continue
            [where h = ?o and c = 2 and d = 3 and usePrefix = False and pfx = "[]"
               and reply = Map.empty and ?reply1.0 = ?a and node = "Some 0"]
      o1 o4 by blast
  have "casesLoop ?o (Some 0) False [] (Some 2 # [Some 5]) Map.empty
        = (if truthy (Value (?o 4)) then casesLoop ?o (Some 0) False [] [Some 5] ?a
           else Some (Inr ?a))"
    using settings_cases_stop_unless_continue
            [where h = ?o and c = 2 and k = 4 and usePrefix = False and pfx = "[]"
               and reply = Map.empty and ?reply1.0 = ?a and node = "Some 0"
               and rest = "[Some 5]"]
      o5 o2 by blast
  with o3 have o6: "casesLoop ?o (Some 0) False [] [Some 2, Some 5] Map.empty = Some (Inr ?a)"
    by (simp only: if_False)

  have s1: "Children (?s 2) ''default'' = Some 3" and s2: "Children (?s 2) ''continue'' = None"
    and s3: "Children (?s 2) ''*'' = Some 4"
    by (simp_all add: starConf_heap)
  have s4: "truthy (Value (?s 4))" by (simp add: starConf_heap tr)
  have s5: "parsealue False [] Map.empty (internalStringValue ?s (Some 3)) = Some (Inr ?a)"
    by (simp add: starConf_heap vals)
  have s6: "evalCase ?s (Some 0) False [] (Some 2) Map.empty = Some (Inr (True, ?a))"
    using settings_cases_stop_unless_continue
            [where h = ?s and c = 2 and d = 3 and usePrefix = False and pfx = "[]"
               and reply = Map.empty and ?reply1.0 = ?a and node = "Some 0"]
      s1 s5 by blast
  have "casesLoop ?s (Some 0) False [] (Some 2 # [Some 5]) Map.empty
        = (if truthy (Value (?s 4)) then casesLoop ?s (Some 0) False [] [Some 5] ?a
           else Some (Inr ?a))"
    using settings_cases_stop_unless_continue
            [where h = ?s and c = 2 and k = 4 and usePrefix = False and pfx = "[]"
               and reply = Map.empty and ?reply1.0 = ?a and node = "Some 0"
               and rest = "[Some 5]"]
      s6 s2 s3 by blast
  with s4 have s7: "casesLoop ?s (Some 0) False [] [Some 2, Some 5] Map.empty
                    = casesLoop ?s (Some 0) False [] [Some 5] ?a"
    by (simp only: if_True)

  have t1: "Children (?s 5) ''default'' = Some 6" and t2: "Children (?s 5) ''continue'' = None"
    and t3: "Children (?s 5) ''*'' = None" and t5: "Parent (?s 0) = None"
    by (simp_all add: starConf_heap)
  have t4: "GetRoot ?s (Some 5) = Some (Some 0)"
    by (simp add: starConf_heap eval_rules IsRoot_def NoFlags_def)
  have t6: "parsealue False [] ?a (internalStringValue ?s (Some 6)) = Some (Inr ?ab)"
    by (simp add: starConf_heap vals)
  have t7: "evalCase ?s (Some 0) False [] (Some 5) ?a = Some (Inr (True, ?ab))"
    using settings_cases_stop_unless_continue
            [where h = ?s and c = 5 and d = 6 and usePrefix = False and pfx = "[]"
               and reply = ?a and ?reply1.0 = ?ab and node = "Some 0"]
      t1 t6 by blast
  have t8: "casesLoop ?s (Some 0) False [] [Some 5] ?a = Some (Inr ?ab)"
    using settings_cases_stop_unless_continue
            [where h = ?s and c = 5 and r = 0 and usePrefix = False and pfx = "[]"
               and reply = ?a and ?reply1.0 = ?ab and node = "Some 0" and rest = "[]"]
      t7 t2 t3 t4 t5 by blast

  have c1: "Children (?c 6) ''default'' = Some 7" and c2: "Children (?c 6) ''continue'' = None"
    and c3: "Children (?c 6) ''*'' = None" and c4: "Parent (?c 4) = Some 0"
    by (simp_all add: scopeConf_heap)
  have "structPath ?c 4 4 []"
    by (rule atRoot) (simp add: scopeConf_heap IsRoot_def)
  then have "structPath ?c 4 5 ([] @ [Key (?c 5)])"
    by (rule below [rotated 2]) (simp_all add: scopeConf_heap IsRoot_def NoFlags_def)
  then have "structPath ?c 4 6 (([] @ [Key (?c 5)]) @ [Key (?c 6)])"
    by (rule below [rotated 2]) (simp_all add: scopeConf_heap IsRoot_def NoFlags_def)
  then have c5: "structPath ?c 4 6 [''g'', ''1'']"
    by (simp add: scopeConf_heap)
  have "keylessUp ?c (Parent (?c 0))" by (simp add: scopeConf_heap atNil)
  then have "keylessUp ?c (Some 0)" by (intro up) (simp_all add: scopeConf_heap)
  then have "keylessUp ?c (Parent (?c 4))" by (simp add: scopeConf_heap)
  then have c6: "keylessUp ?c (Some 4)" by (intro up) (simp_all add: scopeConf_heap)
  have c7: "discover ?c 0 ([''g'', ''1''] @ [''continue'']) = [Some 3]"
    by (simp add: scopeConf_heap)
  have c8: "truthy (Value (?c 3))" by (simp add: scopeConf_heap tr)
  have c9: "parsealue False [] Map.empty (internalStringValue ?c (Some 7)) = Some (Inr ?a)"
    by (simp add: scopeConf_heap vals)
  have c10: "evalCase ?c (Some 4) False [] (Some 6) Map.empty = Some (Inr (True, ?a))"
    using settings_cases_stop_unless_continue
            [where h = ?c and c = 6 and d = 7 and usePrefix = False and pfx = "[]"
               and reply = Map.empty and ?reply1.0 = ?a and node = "Some 4"]
      c1 c9 by blast
  have ne: "[''g'', ''1''] \<noteq> []" by simp
  have "casesLoop ?c (Some 4) False [] (Some 6 # [Some 8]) Map.empty
        = (if truthy (Value (?c 3)) then casesLoop ?c (Some 4) False [] [Some 8] ?a
           else Some (Inr ?a))"
    using settings_cases_stop_unless_continue
            [where h = ?c and c = 6 and k = 3 and r = 4 and casePath = "[''g'', ''1'']"
               and parentScope = 0 and others = "[]" and usePrefix = False and pfx = "[]"
               and reply = Map.empty and ?reply1.0 = ?a and node = "Some 4"
               and rest = "[Some 8]"]
      c10 c2 c3 scopeConf_ok c5 ne c6 c4 c7 by blast
  with c8 have c11: "casesLoop ?c (Some 4) False [] [Some 6, Some 8] Map.empty
                     = casesLoop ?c (Some 4) False [] [Some 8] ?a"
    by (simp only: if_True)

  have y1: "evalCase ?y (Some 12) False [] (Some 5) ?label = Some (Inr (False, ?label))"
    by (simp add: zip_eval)
  have y2: "casesLoop ?y (Some 12) False [] [Some 5] ?label
            = casesLoop ?y (Some 12) False [] [] ?label"
    using settings_cases_stop_unless_continue
            [where h = ?y and caseNode = "Some 5" and usePrefix = False and pfx = "[]"
               and reply = ?label and ?reply1.0 = ?label and node = "Some 12" and rest = "[]"]
      y1 by blast
  show ?thesis
    by (intro conjI z1 z2 z3 z5 z6 o1 o2 o3 o6 s1 s2 s3 s4 s7 t1 t2 t3 t4 t5 t8
          c1 c2 c3 scopeConf_ok c5 c6 c4 c7 c8 c11 y1 y2)
qed

text \<open>
  C6 as stated fails: with \<^verbatim>\<open>keys\<close> holding \<^verbatim>\<open>category\<close> only, case 2 looks up
  \<^verbatim>\<open>3041.value\<close>, which does not exist, and the context \<^verbatim>\<open>category=3041, type=s\<close>
  yields the label alone.
\<close>

theorem settings_single_key_yields_label_only:
  "GetSettings (heap zipContext) (Some 11) [Some (VString ''settings'')]
     = Some (Inr [''label'' \<mapsto> [''Zip code'']])
   \<and> GetSettings (heap zipContext) (Some 11) [Some (VString ''settings'')]
     \<noteq> Some (Inr [''label'' \<mapsto> [''Zip code''], ''suffix'' \<mapsto> [''(of house)'']])"
proof -
  have a: "GetSettings (heap zipContext) (Some 11) [Some (VString ''settings'')]
     = Some (Inr [''label'' \<mapsto> [''Zip code'']])"
    by (simp add: zip_eval)
  have "[''label'' \<mapsto> [''Zip code'']] ''suffix''
        \<noteq> [''label'' \<mapsto> [''Zip code''], ''suffix'' \<mapsto> [''(of house)'']] ''suffix''"
    by simp
  then have "[''label'' \<mapsto> [''Zip code'']]
        \<noteq> [''label'' \<mapsto> [''Zip code''], ''suffix'' \<mapsto> [''(of house)'']]"
    by metis
  with a show ?thesis by simp
qed

end
